theory Spec2Isabelle
  imports Main "HOL-Library.Word"
begin

chapter \<open>The program\<close>

section \<open>Common types\<close>

text \<open>
  Objects are named by their addresses. \<open>uintptr_t\<close> and \<open>long\<close> are 64 bits wide
  (LP64), \<open>unsigned\<close> is 32 bits wide.
\<close>

type_synonym addr = nat
type_synonym uintptr_t = "64 word"
type_synonym long = "64 word"
type_synonym unsigned = "32 word"

text \<open>
  What a call does: it returns, it is suspended in \<open>vlc_atomic_wait\<close> (the single park of
  a blocking call), it cannot go on because a mutex it needs is held, it ends the process
  (\<open>abort()\<close> or a failed \<open>assert\<close>, as in a build without \<open>NDEBUG\<close>), or it loops
  forever. The first three come with the memory as the call has left it so far.
\<close>

datatype 'a outcome = Returns 'a | Parked 'a | Blocked 'a | Aborted | Diverges

section \<open>Lock marks\<close>

record vlc_lock_mark =
  object :: addr
  refs :: uintptr_t

definition vlc_lock_mark_cmp :: "vlc_lock_mark \<Rightarrow> vlc_lock_mark \<Rightarrow> int" where
  "vlc_lock_mark_cmp ma mb =
     (if object ma = object mb then 0
      else if object ma > object mb then 1 else - 1)"

text \<open>
  The ordered set of \<open><search.h>\<close> is not part of this program. It is modelled as the
  finite map from the key that \<open>vlc_lock_mark_cmp\<close> compares (the \<open>object\<close> field) to the
  \<open>refs\<close> field of the element stored under that key. \<open>tsearch\<close> returns the element
  found, or inserts the key and returns it; it returns \<open>NULL\<close> when it has to insert and
  cannot allocate a node. \<open>store\<close> writes through a pointer to an element of the set.
\<close>

type_synonym tree = "addr \<rightharpoonup> uintptr_t"

definition tfind :: "vlc_lock_mark \<Rightarrow> tree \<Rightarrow> vlc_lock_mark option" where
  "tfind key root =
     (case root (object key) of
        None \<Rightarrow> None
      | Some r \<Rightarrow> Some \<lparr>object = object key, refs = r\<rparr>)"

definition store :: "vlc_lock_mark \<Rightarrow> tree \<Rightarrow> tree" where
  "store m root = root(object m \<mapsto> refs m)"

definition tsearch :: "bool \<Rightarrow> vlc_lock_mark \<Rightarrow> tree \<Rightarrow> vlc_lock_mark option \<times> tree" where
  "tsearch node_ok key root =
     (case tfind key root of
        Some e \<Rightarrow> (Some e, root)
      | None \<Rightarrow> if node_ok then (Some key, store key root) else (None, root))"

definition tdelete :: "vlc_lock_mark \<Rightarrow> tree \<Rightarrow> tree" where
  "tdelete key root = root(object key := None)"

text \<open>
  \<open>vlc_lock_mark\<close>: \<open>malloc_ok\<close> says whether \<open>malloc\<close> returns a block, \<open>node_ok\<close>
  whether \<open>tsearch\<close> can allocate. The entry found or inserted has its \<open>refs\<close> incremented
  in place.
\<close>

definition vlc_lock_mark :: "bool \<Rightarrow> bool \<Rightarrow> addr \<Rightarrow> tree \<Rightarrow> tree outcome" where
  "vlc_lock_mark malloc_ok node_ok lock root =
     (if \<not> malloc_ok then Aborted
      else
        let mark = \<lparr>object = lock, refs = 0\<rparr> in
        case tsearch node_ok mark root of
          (None, _) \<Rightarrow> Aborted
        | (Some entry, root') \<Rightarrow>
            Returns (store (entry\<lparr>refs := refs entry + 1\<rparr>) root'))"

text \<open>
  \<open>vlc_lock_unmark\<close>: both assertions end the process; the entry is deleted when the
  decremented count is zero.
\<close>

definition vlc_lock_unmark :: "addr \<Rightarrow> tree \<Rightarrow> tree outcome" where
  "vlc_lock_unmark lock root =
     (case tfind \<lparr>object = lock, refs = 0\<rparr> root of
        None \<Rightarrow> Aborted
      | Some mark \<Rightarrow>
          if \<not> 0 < refs mark then Aborted
          else
            let mark' = mark\<lparr>refs := refs mark - 1\<rparr> in
            if refs mark' = 0 then Returns (tdelete mark' root)
            else Returns (store mark' root))"

definition vlc_lock_marked :: "addr \<Rightarrow> tree \<Rightarrow> bool" where
  "vlc_lock_marked lock root = (tfind \<lparr>object = lock, refs = 0\<rparr> root \<noteq> None)"

text \<open>The thread-local root \<open>vlc_mutex_marks\<close> starts as \<open>NULL\<close>: the empty set.\<close>

definition vlc_mutex_marks_init :: tree where
  "vlc_mutex_marks_init = Map.empty"

section \<open>The wait cell\<close>

text \<open>
  Modelled from the spec: the wait cell (\<open>vlc_atomic_wait\<close>, \<open>vlc_atomic_timedwait\<close>,
  \<open>vlc_atomic_notify_one\<close>) is supplied by the platform. What happens to a thread in a
  wait at a given moment is an input of the model: it is woken, by a notification or for
  no reason, and the wait returns 0; the deadline of a timed wait elapses, and the wait
  returns \<open>ETIMEDOUT\<close>; or neither, and then the wait returns 0 at once if the value of
  the cell differs from the expected one, and the thread sleeps on if it does not.
\<close>

datatype park = Sleeps | Wakes | Elapses

text \<open>The values of \<open><errno.h>\<close> on Linux; the program only tests them against 0.\<close>

definition EOVERFLOW :: int where
  "EOVERFLOW = 75"

definition ETIMEDOUT :: int where
  "ETIMEDOUT = 110"

definition vlc_atomic_wait :: "park \<Rightarrow> unsigned \<Rightarrow> unsigned \<Rightarrow> unit option" where
  "vlc_atomic_wait p cur expected =
     (case p of
        Wakes \<Rightarrow> Some ()
      | _ \<Rightarrow> if cur \<noteq> expected then Some () else None)"

definition vlc_atomic_timedwait :: "park \<Rightarrow> unsigned \<Rightarrow> unsigned \<Rightarrow> int option" where
  "vlc_atomic_timedwait p cur expected =
     (case p of
        Wakes \<Rightarrow> Some 0
      | Elapses \<Rightarrow> Some ETIMEDOUT
      | Sleeps \<Rightarrow> if cur \<noteq> expected then Some 0 else None)"

section \<open>Counting semaphores\<close>

text \<open>
  The semaphore is one atomic word. \<open>sem_notified\<close> counts the calls of
  \<open>vlc_atomic_notify_one(&sem->value)\<close> made so far.
\<close>

record vlc_sem_t =
  sem_value :: unsigned
  sem_notified :: nat

definition UINT_MAX :: unsigned where
  "UINT_MAX = 4294967295"

definition vlc_sem_init :: "unsigned \<Rightarrow> vlc_sem_t" where
  "vlc_sem_init v = \<lparr>sem_value = v, sem_notified = 0\<rparr>"

definition atomic_load :: "vlc_sem_t \<Rightarrow> unsigned" where
  "atomic_load s = sem_value s"

text \<open>
  \<open>atomic_compare_exchange_weak(&sem->value, &exp, desired)\<close>: the success flag, the new
  \<open>exp\<close> and the new semaphore. The weak form may fail although the values are equal.
\<close>

definition atomic_compare_exchange_weak ::
  "bool \<Rightarrow> unsigned \<Rightarrow> unsigned \<Rightarrow> vlc_sem_t \<Rightarrow> bool \<times> unsigned \<times> vlc_sem_t" where
  "atomic_compare_exchange_weak fails exp desired s =
     (if sem_value s = exp \<and> \<not> fails then (True, exp, s\<lparr>sem_value := desired\<rparr>)
      else (False, sem_value s, s))"

definition vlc_atomic_notify_one :: "vlc_sem_t \<Rightarrow> vlc_sem_t" where
  "vlc_atomic_notify_one s = s\<lparr>sem_notified := sem_notified s + 1\<rparr>"

text \<open>
  Other threads run between two atomic accesses of a call, so a call is a sequence of
  steps, each with one access to the semaphore. The position of a call is the code it
  is about to run, with its local \<open>exp\<close>. What the platform decides at a step (a spurious
  failure of the weak exchange, the fate of a sleeping thread) is the step's \<open>env\<close>.
\<close>

record env =
  cas_fails :: bool
  park :: park

datatype post_pc = Post_load | Post_cas unsigned | Post_returned int

datatype wait_pc = Wait_cas unsigned | Wait_park | Wait_returned

datatype timedwait_pc = Timedwait_cas unsigned | Timedwait_park | Timedwait_returned int

text \<open>\<open>vlc_sem_post\<close>: the load, then the loop: test for \<open>UINT_MAX\<close>, exchange.\<close>

fun vlc_sem_post :: "env \<Rightarrow> post_pc \<Rightarrow> vlc_sem_t \<Rightarrow> post_pc \<times> vlc_sem_t" where
  "vlc_sem_post e Post_load s = (Post_cas (atomic_load s), s)"
| "vlc_sem_post e (Post_cas exp) s =
     (if exp = UINT_MAX then (Post_returned EOVERFLOW, s)
      else
        case atomic_compare_exchange_weak (cas_fails e) exp (exp + 1) s of
          (True, _, s') \<Rightarrow> (Post_returned 0, vlc_atomic_notify_one s')
        | (False, exp', s') \<Rightarrow> (Post_cas exp', s'))"
| "vlc_sem_post e (Post_returned r) s = (Post_returned r, s)"

text \<open>\<open>vlc_sem_wait\<close> starts at \<open>Wait_cas 1\<close>.\<close>

fun vlc_sem_wait :: "env \<Rightarrow> wait_pc \<Rightarrow> vlc_sem_t \<Rightarrow> wait_pc \<times> vlc_sem_t" where
  "vlc_sem_wait e (Wait_cas exp) s =
     (case atomic_compare_exchange_weak (cas_fails e) exp (exp - 1) s of
        (True, _, s') \<Rightarrow> (Wait_returned, s')
      | (False, exp', s') \<Rightarrow> if exp' = 0 then (Wait_park, s') else (Wait_cas exp', s'))"
| "vlc_sem_wait e Wait_park s =
     (case vlc_atomic_wait (park e) (sem_value s) 0 of
        None \<Rightarrow> (Wait_park, s)
      | Some _ \<Rightarrow> (Wait_cas 1, s))"
| "vlc_sem_wait e Wait_returned s = (Wait_returned, s)"

text \<open>\<open>vlc_sem_timedwait\<close> starts at \<open>Timedwait_cas 1\<close>.\<close>

fun vlc_sem_timedwait ::
  "env \<Rightarrow> timedwait_pc \<Rightarrow> vlc_sem_t \<Rightarrow> timedwait_pc \<times> vlc_sem_t" where
  "vlc_sem_timedwait e (Timedwait_cas exp) s =
     (case atomic_compare_exchange_weak (cas_fails e) exp (exp - 1) s of
        (True, _, s') \<Rightarrow> (Timedwait_returned 0, s')
      | (False, exp', s') \<Rightarrow>
          if exp' = 0 then (Timedwait_park, s') else (Timedwait_cas exp', s'))"
| "vlc_sem_timedwait e Timedwait_park s =
     (case vlc_atomic_timedwait (park e) (sem_value s) 0 of
        None \<Rightarrow> (Timedwait_park, s)
      | Some ret \<Rightarrow> if ret \<noteq> 0 then (Timedwait_returned ret, s) else (Timedwait_cas 1, s))"
| "vlc_sem_timedwait e (Timedwait_returned r) s = (Timedwait_returned r, s)"

subsection \<open>Threads\<close>

text \<open>
  A system is the semaphore and the calls in flight, one per thread. A schedule names,
  step by step, the thread that runs and what the platform decides.
\<close>

datatype sem_call = Post post_pc | Wait wait_pc | Timedwait timedwait_pc

record sem_system =
  sem :: vlc_sem_t
  threads :: "sem_call list"

fun call_step :: "env \<Rightarrow> sem_call \<Rightarrow> vlc_sem_t \<Rightarrow> sem_call \<times> vlc_sem_t" where
  "call_step e (Post pc) s = (case vlc_sem_post e pc s of (pc', s') \<Rightarrow> (Post pc', s'))"
| "call_step e (Wait pc) s = (case vlc_sem_wait e pc s of (pc', s') \<Rightarrow> (Wait pc', s'))"
| "call_step e (Timedwait pc) s =
     (case vlc_sem_timedwait e pc s of (pc', s') \<Rightarrow> (Timedwait pc', s'))"

definition sem_step :: "nat \<times> env \<Rightarrow> sem_system \<Rightarrow> sem_system" where
  "sem_step x c =
     (case x of (i, e) \<Rightarrow>
        if i < length (threads c) then
          case call_step e (threads c ! i) (sem c) of
            (t', s') \<Rightarrow> \<lparr>sem = s', threads = (threads c)[i := t']\<rparr>
        else c)"

definition sem_run :: "(nat \<times> env) list \<Rightarrow> sem_system \<Rightarrow> sem_system" where
  "sem_run sched c = fold sem_step sched c"

definition sem_start :: "unsigned \<Rightarrow> sem_call list \<Rightarrow> sem_system" where
  "sem_start v ts = \<lparr>sem = vlc_sem_init v, threads = ts\<rparr>"

text \<open>A call that has not run yet.\<close>

fun entry :: "sem_call \<Rightarrow> bool" where
  "entry (Post pc) = (pc = Post_load)"
| "entry (Wait pc) = (pc = Wait_cas 1)"
| "entry (Timedwait pc) = (pc = Timedwait_cas 1)"

text \<open>The calls that have returned success: posts, and waits of either kind.\<close>

fun posted :: "sem_call \<Rightarrow> nat" where
  "posted (Post (Post_returned r)) = (if r = 0 then 1 else 0)"
| "posted _ = 0"

fun waited :: "sem_call \<Rightarrow> nat" where
  "waited (Wait Wait_returned) = 1"
| "waited (Timedwait (Timedwait_returned r)) = (if r = 0 then 1 else 0)"
| "waited _ = 0"

definition posts_done :: "sem_system \<Rightarrow> nat" where
  "posts_done c = sum_list (map posted (threads c))"

definition waits_done :: "sem_system \<Rightarrow> nat" where
  "waits_done c = sum_list (map waited (threads c))"

fun is_post :: "sem_call \<Rightarrow> bool" where
  "is_post (Post _) = True"
| "is_post _ = False"

text \<open>
  What the steps of thread \<open>i\<close> did to the semaphore in a run: the semaphore before and
  after each of its steps that changed it.
\<close>

fun own_effects :: "nat \<Rightarrow> (nat \<times> env) list \<Rightarrow> sem_system \<Rightarrow> (vlc_sem_t \<times> vlc_sem_t) list" where
  "own_effects i [] c = []"
| "own_effects i (x # sched) c =
     (if fst x = i \<and> sem (sem_step x c) \<noteq> sem c then [(sem c, sem (sem_step x c))] else [])
     @ own_effects i sched (sem_step x c)"

text \<open>A call that has returned takes no further step.\<close>

fun returned :: "sem_call \<Rightarrow> bool" where
  "returned (Post (Post_returned r)) = True"
| "returned (Wait Wait_returned) = True"
| "returned (Timedwait (Timedwait_returned r)) = True"
| "returned _ = False"

text \<open>
  The semaphore as the call of thread \<open>i\<close> found it at each of its steps in a run, up to
  the step at which it returned.
\<close>

fun own_views :: "nat \<Rightarrow> (nat \<times> env) list \<Rightarrow> sem_system \<Rightarrow> vlc_sem_t list" where
  "own_views i [] c = []"
| "own_views i (x # sched) c =
     (if fst x = i \<and> i < length (threads c) \<and> \<not> returned (threads c ! i) then [sem c] else [])
     @ own_views i sched (sem_step x c)"

text \<open>The schedule in which thread \<open>i\<close> runs by itself, with the given platform decisions.\<close>

definition alone :: "nat \<Rightarrow> env list \<Rightarrow> (nat \<times> env) list" where
  "alone i es = map (Pair i) es"

section \<open>Memory\<close>

text \<open>
  A condition variable stands alone or is the member \<open>wait\<close> of a read/write lock; a
  mutex stands alone, or is the member \<open>lock\<close> of a condition variable or the member
  \<open>mutex\<close> of a read/write lock. A waiter lives in the stack frame of the call that waits.
  A \<open>struct vlc_cond_waiter **\<close> points at the \<open>head\<close> of a condition variable or at the
  \<open>next\<close> field of a waiter. \<open>True\<close> in a mutex means that it is held.
\<close>

datatype cond_ptr = Cond addr | Rwlock_wait addr

datatype mutex_ptr = Mutex addr | Cond_lock cond_ptr | Rwlock_mutex addr

datatype slot = Head cond_ptr | Next addr

record vlc_cond_t =
  c_head :: "addr option"
  c_lock :: bool

record vlc_cond_waiter =
  w_pprev :: slot
  w_next :: "addr option"
  w_value :: unsigned
  w_cond :: cond_ptr
  w_mutex :: mutex_ptr

record vlc_rwlock_t =
  rw_mutex :: bool
  rw_wait :: vlc_cond_t
  rw_state :: long

text \<open>
  \<open>notified\<close> lists the waiters whose cell \<open>vlc_atomic_notify_one\<close> was called on, oldest
  first.
\<close>

record heap =
  conds :: "addr \<Rightarrow> vlc_cond_t"
  rwlocks :: "addr \<Rightarrow> vlc_rwlock_t"
  mutexes :: "addr \<Rightarrow> bool"
  waiters :: "addr \<Rightarrow> vlc_cond_waiter"
  notified :: "addr list"

fun cond_at :: "cond_ptr \<Rightarrow> heap \<Rightarrow> vlc_cond_t" where
  "cond_at (Cond a) h = conds h a"
| "cond_at (Rwlock_wait l) h = rw_wait (rwlocks h l)"

fun cond_upd :: "cond_ptr \<Rightarrow> (vlc_cond_t \<Rightarrow> vlc_cond_t) \<Rightarrow> heap \<Rightarrow> heap" where
  "cond_upd (Cond a) f h = h\<lparr>conds := (conds h)(a := f (conds h a))\<rparr>"
| "cond_upd (Rwlock_wait l) f h =
     h\<lparr>rwlocks := (rwlocks h)(l := (rwlocks h l)\<lparr>rw_wait := f (rw_wait (rwlocks h l))\<rparr>)\<rparr>"

fun mutex_at :: "mutex_ptr \<Rightarrow> heap \<Rightarrow> bool" where
  "mutex_at (Mutex a) h = mutexes h a"
| "mutex_at (Cond_lock p) h = c_lock (cond_at p h)"
| "mutex_at (Rwlock_mutex l) h = rw_mutex (rwlocks h l)"

fun mutex_set :: "mutex_ptr \<Rightarrow> bool \<Rightarrow> heap \<Rightarrow> heap" where
  "mutex_set (Mutex a) b h = h\<lparr>mutexes := (mutexes h)(a := b)\<rparr>"
| "mutex_set (Cond_lock p) b h = cond_upd p (\<lambda>c. c\<lparr>c_lock := b\<rparr>) h"
| "mutex_set (Rwlock_mutex l) b h =
     h\<lparr>rwlocks := (rwlocks h)(l := (rwlocks h l)\<lparr>rw_mutex := b\<rparr>)\<rparr>"

definition waiter_upd :: "addr \<Rightarrow> (vlc_cond_waiter \<Rightarrow> vlc_cond_waiter) \<Rightarrow> heap \<Rightarrow> heap" where
  "waiter_upd w f h = h\<lparr>waiters := (waiters h)(w := f (waiters h w))\<rparr>"

text \<open>\<open>*pprev = v\<close>.\<close>

fun slot_store :: "slot \<Rightarrow> addr option \<Rightarrow> heap \<Rightarrow> heap" where
  "slot_store (Head p) v h = cond_upd p (\<lambda>c. c\<lparr>c_head := v\<rparr>) h"
| "slot_store (Next w) v h = waiter_upd w (\<lambda>x. x\<lparr>w_next := v\<rparr>) h"

section \<open>Mutexes\<close>

text \<open>
  Modelled from the spec: the mutex is supplied by the platform, exclusive and not
  reentrant. Locking a held mutex blocks the caller, with the memory as it is.
\<close>

definition vlc_mutex_lock :: "mutex_ptr \<Rightarrow> heap \<Rightarrow> heap outcome" where
  "vlc_mutex_lock m h = (if mutex_at m h then Blocked h else Returns (mutex_set m True h))"

definition vlc_mutex_unlock :: "mutex_ptr \<Rightarrow> heap \<Rightarrow> heap" where
  "vlc_mutex_unlock m h = mutex_set m False h"

text \<open>Sequencing: what follows a call runs only if the call returns.\<close>

fun and_then :: "'a outcome \<Rightarrow> ('a \<Rightarrow> 'a outcome) \<Rightarrow> 'a outcome" where
  "and_then (Returns x) f = f x"
| "and_then (Parked x) f = Parked x"
| "and_then (Blocked x) f = Blocked x"
| "and_then Aborted f = Aborted"
| "and_then Diverges f = Diverges"

section \<open>Condition variables\<close>

text \<open>
  Cancellation is left out: \<open>vlc_cancel_addr_prepare\<close> and \<open>vlc_cancel_addr_finish\<close> touch
  none of the memory above when no cancellation is pending.
\<close>

definition vlc_cond_init :: "cond_ptr \<Rightarrow> heap \<Rightarrow> heap" where
  "vlc_cond_init cond h = cond_upd cond (\<lambda>_. \<lparr>c_head = None, c_lock = False\<rparr>) h"

definition vlc_cond_destroy :: "cond_ptr \<Rightarrow> heap \<Rightarrow> heap outcome" where
  "vlc_cond_destroy cond h = (if c_head (cond_at cond h) \<noteq> None then Aborted else Returns h)"

definition vlc_cond_signal_waiter :: "addr \<Rightarrow> heap \<Rightarrow> heap" where
  "vlc_cond_signal_waiter waiter h =
     (let h1 = waiter_upd waiter (\<lambda>x. x\<lparr>w_pprev := Next waiter\<rparr>) h;
          h2 = waiter_upd waiter (\<lambda>x. x\<lparr>w_next := None\<rparr>) h1;
          h3 = waiter_upd waiter (\<lambda>x. x\<lparr>w_value := w_value x + 1\<rparr>) h2
      in h3\<lparr>notified := notified h3 @ [waiter]\<rparr>)"

definition vlc_cond_signal :: "cond_ptr \<Rightarrow> heap \<Rightarrow> heap outcome" where
  "vlc_cond_signal cond h =
     and_then (vlc_mutex_lock (Cond_lock cond) h) (\<lambda>h.
       let h' =
         (case c_head (cond_at cond h) of
            None \<Rightarrow> h
          | Some waiter \<Rightarrow>
              let next = w_next (waiters h waiter);
                  pprev = w_pprev (waiters h waiter);
                  h1 = slot_store pprev next h;
                  h2 = (case next of
                          None \<Rightarrow> h1
                        | Some n \<Rightarrow> waiter_upd n (\<lambda>x. x\<lparr>w_pprev := pprev\<rparr>) h1)
              in vlc_cond_signal_waiter waiter h2)
       in Returns (vlc_mutex_unlock (Cond_lock cond) h'))"

text \<open>The loop of \<open>vlc_cond_broadcast\<close>; on a list that runs in a circle it never ends.\<close>

definition broadcast_iter :: "addr \<Rightarrow> heap \<Rightarrow> addr option \<times> heap" where
  "broadcast_iter waiter h =
     (let next = w_next (waiters h waiter)
      in (next, vlc_cond_signal_waiter waiter h))"

partial_function (option) broadcast_loop :: "addr option \<times> heap \<Rightarrow> heap option" where
  "broadcast_loop s =
     (case fst s of
        None \<Rightarrow> Some (snd s)
      | Some waiter \<Rightarrow> broadcast_loop (broadcast_iter waiter (snd s)))"

declare broadcast_loop.simps [code]

definition vlc_cond_broadcast :: "cond_ptr \<Rightarrow> heap \<Rightarrow> heap outcome" where
  "vlc_cond_broadcast cond h =
     and_then (vlc_mutex_lock (Cond_lock cond) h) (\<lambda>h.
       let waiter = c_head (cond_at cond h);
           h1 = cond_upd cond (\<lambda>c. c\<lparr>c_head := None\<rparr>) h
       in case broadcast_loop (waiter, h1) of
            None \<Rightarrow> Diverges
          | Some h2 \<Rightarrow> Returns (vlc_mutex_unlock (Cond_lock cond) h2))"

text \<open>
  \<open>vlc_cond_wait_prepare\<close>: the fields are set (\<open>next\<close> is written under the lock), the
  waiter is linked in front of the head, and the caller's mutex is released.
\<close>

definition vlc_cond_wait_prepare ::
  "addr \<Rightarrow> cond_ptr \<Rightarrow> mutex_ptr \<Rightarrow> heap \<Rightarrow> heap outcome" where
  "vlc_cond_wait_prepare waiter cond mutex h =
     (let h0 = waiter_upd waiter
                 (\<lambda>x. x\<lparr>w_pprev := Head cond, w_value := 0, w_cond := cond, w_mutex := mutex\<rparr>) h
      in and_then (vlc_mutex_lock (Cond_lock cond) h0) (\<lambda>h.
           let next = c_head (cond_at cond h);
               h1 = cond_upd cond (\<lambda>c. c\<lparr>c_head := Some waiter\<rparr>) h;
               h2 = waiter_upd waiter (\<lambda>x. x\<lparr>w_next := next\<rparr>) h1;
               h3 = (case next of
                       None \<Rightarrow> h2
                     | Some n \<Rightarrow> waiter_upd n (\<lambda>x. x\<lparr>w_pprev := Next waiter\<rparr>) h2);
               h4 = vlc_mutex_unlock (Cond_lock cond) h3
           in Returns (vlc_mutex_unlock mutex h4)))"

text \<open>
  \<open>vlc_cond_wait_finish\<close>: the waiter unlinks itself under the lock, then takes the
  caller's mutex again.
\<close>

definition vlc_cond_wait_finish ::
  "addr \<Rightarrow> cond_ptr \<Rightarrow> mutex_ptr \<Rightarrow> heap \<Rightarrow> heap outcome" where
  "vlc_cond_wait_finish waiter cond mutex h =
     and_then (vlc_mutex_lock (Cond_lock cond) h) (\<lambda>h.
       let next = w_next (waiters h waiter);
           h1 = slot_store (w_pprev (waiters h waiter)) next h;
           h2 = (case next of
                   None \<Rightarrow> h1
                 | Some n \<Rightarrow> waiter_upd n (\<lambda>x. x\<lparr>w_pprev := w_pprev (waiters h1 waiter)\<rparr>) h1);
           h3 = vlc_mutex_unlock (Cond_lock cond) h2
       in vlc_mutex_lock mutex h3)"

definition vlc_cond_wait_cleanup :: "addr \<Rightarrow> heap \<Rightarrow> heap outcome" where
  "vlc_cond_wait_cleanup waiter h =
     vlc_cond_wait_finish waiter (w_cond (waiters h waiter)) (w_mutex (waiters h waiter)) h"

text \<open>
  \<open>vlc_cond_wait\<close> up to its park, where the call is suspended on the waiter's own cell;
  \<open>waiter\<close> is the address of its local variable. \<open>vlc_cond_wait_resume\<close> is the rest of
  the call: the park returns or not, then the cleanup runs.
\<close>

definition vlc_cond_wait :: "cond_ptr \<Rightarrow> mutex_ptr \<Rightarrow> addr \<Rightarrow> heap \<Rightarrow> heap outcome" where
  "vlc_cond_wait cond mutex waiter h =
     and_then (vlc_cond_wait_prepare waiter cond mutex h) Parked"

definition vlc_cond_wait_resume :: "park \<Rightarrow> addr \<Rightarrow> heap \<Rightarrow> heap outcome" where
  "vlc_cond_wait_resume p waiter h =
     (case vlc_atomic_wait p (w_value (waiters h waiter)) 0 of
        None \<Rightarrow> Parked h
      | Some _ \<Rightarrow> vlc_cond_wait_cleanup waiter h)"

section \<open>Read/write locks\<close>

definition LONG_MAX :: long where
  "LONG_MAX = 0x7FFFFFFFFFFFFFFF"

definition LONG_MIN :: long where
  "LONG_MIN = 0x8000000000000000"

definition READER_MASK :: long where
  "READER_MASK = LONG_MAX"

definition WRITER_BIT :: long where
  "WRITER_BIT = LONG_MIN"

definition state_upd :: "addr \<Rightarrow> (long \<Rightarrow> long) \<Rightarrow> heap \<Rightarrow> heap" where
  "state_upd l f h =
     h\<lparr>rwlocks := (rwlocks h)(l := (rwlocks h l)\<lparr>rw_state := f (rw_state (rwlocks h l))\<rparr>)\<rparr>"

definition vlc_rwlock_init :: "addr \<Rightarrow> heap \<Rightarrow> heap" where
  "vlc_rwlock_init l h =
     (let h1 = mutex_set (Rwlock_mutex l) False h;
          h2 = vlc_cond_init (Rwlock_wait l) h1
      in state_upd l (\<lambda>_. 0) h2)"

text \<open>
  The loops of \<open>vlc_rwlock_rdlock\<close> and \<open>vlc_rwlock_wrlock\<close>, entered with the mutex held:
  either the call waits and is suspended in \<open>vlc_cond_wait\<close>, or it leaves the loop and
  returns. A suspended call goes on with \<open>vlc_cond_wait_resume\<close> and enters the loop again.
\<close>

definition rdlock_loop :: "addr \<Rightarrow> addr \<Rightarrow> heap \<Rightarrow> heap outcome" where
  "rdlock_loop l waiter h =
     (if sint (rw_state (rwlocks h l)) < 0 then
        if rw_state (rwlocks h l) \<noteq> WRITER_BIT then Aborted
        else vlc_cond_wait (Rwlock_wait l) (Rwlock_mutex l) waiter h
      else if sint READER_MASK \<le> sint (rw_state (rwlocks h l)) then Aborted
      else Returns (vlc_mutex_unlock (Rwlock_mutex l) (state_upd l (\<lambda>s. s + 1) h)))"

definition vlc_rwlock_rdlock :: "addr \<Rightarrow> addr \<Rightarrow> heap \<Rightarrow> heap outcome" where
  "vlc_rwlock_rdlock l waiter h =
     and_then (vlc_mutex_lock (Rwlock_mutex l) h) (rdlock_loop l waiter)"

definition vlc_rwlock_rdlock_resume :: "park \<Rightarrow> addr \<Rightarrow> addr \<Rightarrow> heap \<Rightarrow> heap outcome" where
  "vlc_rwlock_rdlock_resume p l waiter h =
     and_then (vlc_cond_wait_resume p waiter h) (rdlock_loop l waiter)"

definition wrlock_loop :: "addr \<Rightarrow> addr \<Rightarrow> heap \<Rightarrow> heap outcome" where
  "wrlock_loop l waiter h =
     (if rw_state (rwlocks h l) \<noteq> 0 then
        vlc_cond_wait (Rwlock_wait l) (Rwlock_mutex l) waiter h
      else Returns (vlc_mutex_unlock (Rwlock_mutex l) (state_upd l (\<lambda>_. WRITER_BIT) h)))"

definition vlc_rwlock_wrlock :: "addr \<Rightarrow> addr \<Rightarrow> heap \<Rightarrow> heap outcome" where
  "vlc_rwlock_wrlock l waiter h =
     and_then (vlc_mutex_lock (Rwlock_mutex l) h) (wrlock_loop l waiter)"

definition vlc_rwlock_wrlock_resume :: "park \<Rightarrow> addr \<Rightarrow> addr \<Rightarrow> heap \<Rightarrow> heap outcome" where
  "vlc_rwlock_wrlock_resume p l waiter h =
     and_then (vlc_cond_wait_resume p waiter h) (wrlock_loop l waiter)"

definition vlc_rwlock_unlock :: "addr \<Rightarrow> heap \<Rightarrow> heap outcome" where
  "vlc_rwlock_unlock l h =
     and_then (vlc_mutex_lock (Rwlock_mutex l) h) (\<lambda>h.
       if sint (rw_state (rwlocks h l)) < 0 then
         if rw_state (rwlocks h l) \<noteq> WRITER_BIT then Aborted
         else
           and_then (vlc_cond_broadcast (Rwlock_wait l) (state_upd l (\<lambda>_. 0) h)) (\<lambda>h.
             Returns (vlc_mutex_unlock (Rwlock_mutex l) h))
       else if \<not> 0 < sint (rw_state (rwlocks h l)) then Aborted
       else
         let h1 = state_upd l (\<lambda>s. s - 1) h
         in and_then
              (if rw_state (rwlocks h1 l) = 0 then vlc_cond_signal (Rwlock_wait l) h1
               else Returns h1)
              (\<lambda>h. Returns (vlc_mutex_unlock (Rwlock_mutex l) h)))"

section \<open>Histories\<close>

text \<open>
  A history is the sequence of calls, and of resumptions of suspended calls, that the
  threads of the process make one after the other. Each runs on the memory the previous
  one has left, whether that one returned or was suspended; a history that comes to a
  call that blocks, aborts or diverges ends there.
\<close>

datatype thread_call =
    Lock mutex_ptr
  | Unlock mutex_ptr
  | Cond_wait cond_ptr mutex_ptr addr
  | Cond_wait_resume park addr
  | Cond_signal cond_ptr
  | Cond_broadcast cond_ptr
  | Rdlock addr addr
  | Rdlock_resume park addr addr
  | Wrlock addr addr
  | Wrlock_resume park addr addr
  | Rw_unlock addr

fun exec :: "thread_call \<Rightarrow> heap \<Rightarrow> heap outcome" where
  "exec (Lock m) h = vlc_mutex_lock m h"
| "exec (Unlock m) h = Returns (vlc_mutex_unlock m h)"
| "exec (Cond_wait cond mutex waiter) h = vlc_cond_wait cond mutex waiter h"
| "exec (Cond_wait_resume p waiter) h = vlc_cond_wait_resume p waiter h"
| "exec (Cond_signal cond) h = vlc_cond_signal cond h"
| "exec (Cond_broadcast cond) h = vlc_cond_broadcast cond h"
| "exec (Rdlock l waiter) h = vlc_rwlock_rdlock l waiter h"
| "exec (Rdlock_resume p l waiter) h = vlc_rwlock_rdlock_resume p l waiter h"
| "exec (Wrlock l waiter) h = vlc_rwlock_wrlock l waiter h"
| "exec (Wrlock_resume p l waiter) h = vlc_rwlock_wrlock_resume p l waiter h"
| "exec (Rw_unlock l) h = vlc_rwlock_unlock l h"

fun next_call :: "heap outcome \<Rightarrow> (heap \<Rightarrow> heap outcome) \<Rightarrow> heap outcome" where
  "next_call (Returns h) f = f h"
| "next_call (Parked h) f = f h"
| "next_call (Blocked h) f = Blocked h"
| "next_call Aborted f = Aborted"
| "next_call Diverges f = Diverges"

fun run_calls :: "thread_call list \<Rightarrow> heap \<Rightarrow> heap outcome" where
  "run_calls [] h = Returns h"
| "run_calls (c # cs) h = next_call (exec c h) (run_calls cs)"

text \<open>The threads \<open>ws\<close> wait on a condition variable in turn, each holding the mutex.\<close>

definition queue_up :: "cond_ptr \<Rightarrow> mutex_ptr \<Rightarrow> addr list \<Rightarrow> thread_call list" where
  "queue_up cond mutex ws = concat (map (\<lambda>w. [Lock mutex, Cond_wait cond mutex w]) ws)"

text \<open>
  The waiters \<open>ws\<close> wake up in turn: the wait of each one goes on from its park, and its
  caller, which holds the mutex again when the wait has returned, releases it. The mutex
  of a waiter is read from the memory \<open>h\<close>.
\<close>

definition wake_up :: "heap \<Rightarrow> addr list \<Rightarrow> thread_call list" where
  "wake_up h ws =
     concat (map (\<lambda>w. [Cond_wait_resume Sleeps w, Unlock (w_mutex (waiters h w))]) ws)"

text \<open>
  The loop of \<open>vlc_cond_broadcast\<close> as it starts on memory \<open>h\<close> (lock taken, head reset),
  and its state after \<open>n\<close> iterations.
\<close>

definition broadcast_start :: "cond_ptr \<Rightarrow> heap \<Rightarrow> addr option \<times> heap" where
  "broadcast_start cond h =
     (c_head (cond_at cond h),
      cond_upd cond (\<lambda>c. c\<lparr>c_head := None\<rparr>) (mutex_set (Cond_lock cond) True h))"

fun broadcast_steps :: "nat \<Rightarrow> addr option \<times> heap \<Rightarrow> addr option \<times> heap" where
  "broadcast_steps 0 s = s"
| "broadcast_steps (Suc n) s =
     (case fst s of
        None \<Rightarrow> s
      | Some waiter \<Rightarrow> broadcast_steps n (broadcast_iter waiter (snd s)))"

section \<open>Abstractions and invariants\<close>

subsection \<open>The queue of a condition variable\<close>

text \<open>
  The waiters linked from a slot, in the order of the \<open>next\<close> pointers: each one's \<open>pprev\<close>
  points back at the slot that holds its address.
\<close>

fun queue_from :: "heap \<Rightarrow> slot \<Rightarrow> addr option \<Rightarrow> addr list \<Rightarrow> bool" where
  "queue_from h s p [] = (p = None)"
| "queue_from h s p (w # ws) =
     (p = Some w \<and> w_pprev (waiters h w) = s \<and>
      queue_from h (Next w) (w_next (waiters h w)) ws)"

definition cond_queue :: "cond_ptr \<Rightarrow> heap \<Rightarrow> addr list \<Rightarrow> bool" where
  "cond_queue cond h q \<longleftrightarrow>
     queue_from h (Head cond) (c_head (cond_at cond h)) q \<and> distinct q"

text \<open>A waiter that is in no queue: its linkage points at itself.\<close>

definition detached :: "heap \<Rightarrow> addr \<Rightarrow> bool" where
  "detached h w \<longleftrightarrow> w_pprev (waiters h w) = Next w \<and> w_next (waiters h w) = None"

text \<open>A memory in which every object is initialised and idle.\<close>

definition heap_init :: heap where
  "heap_init =
     \<lparr>conds = (\<lambda>_. \<lparr>c_head = None, c_lock = False\<rparr>),
      rwlocks = (\<lambda>_. \<lparr>rw_mutex = False, rw_wait = \<lparr>c_head = None, c_lock = False\<rparr>,
                      rw_state = 0\<rparr>),
      mutexes = (\<lambda>_. False),
      waiters = (\<lambda>w. \<lparr>w_pprev = Next w, w_next = None, w_value = 0, w_cond = Cond 0,
                      w_mutex = Mutex 0\<rparr>),
      notified = []\<rparr>"

subsection \<open>Who holds a read/write lock\<close>

text \<open>
  The spec's view of a read/write lock: the number of read holds and of write holds that
  its clients have. A history of one lock is a list of events: a thread asks for the lock
  (with the waiter it would sleep on), a suspended request goes on, a reader or a writer
  releases its hold. Releasing is \<open>vlc_rwlock_unlock\<close> in both cases; a client only
  releases a hold it has. A request that returns adds a hold, one that is suspended does
  not.
\<close>

record holders =
  readers :: nat
  writers :: nat

datatype rw_event =
    Read_lock addr
  | Read_resume park addr
  | Write_lock addr
  | Write_resume park addr
  | Read_unlock
  | Write_unlock

fun rw_call :: "addr \<Rightarrow> rw_event \<Rightarrow> thread_call" where
  "rw_call l (Read_lock w) = Rdlock l w"
| "rw_call l (Read_resume p w) = Rdlock_resume p l w"
| "rw_call l (Write_lock w) = Wrlock l w"
| "rw_call l (Write_resume p w) = Wrlock_resume p l w"
| "rw_call l Read_unlock = Rw_unlock l"
| "rw_call l Write_unlock = Rw_unlock l"

fun permitted :: "rw_event \<Rightarrow> holders \<Rightarrow> bool" where
  "permitted Read_unlock g = (0 < readers g)"
| "permitted Write_unlock g = (0 < writers g)"
| "permitted _ g = True"

fun completed :: "rw_event \<Rightarrow> holders \<Rightarrow> holders" where
  "completed (Read_lock w) g = g\<lparr>readers := readers g + 1\<rparr>"
| "completed (Read_resume p w) g = g\<lparr>readers := readers g + 1\<rparr>"
| "completed (Write_lock w) g = g\<lparr>writers := writers g + 1\<rparr>"
| "completed (Write_resume p w) g = g\<lparr>writers := writers g + 1\<rparr>"
| "completed Read_unlock g = g\<lparr>readers := readers g - 1\<rparr>"
| "completed Write_unlock g = g\<lparr>writers := writers g - 1\<rparr>"

fun rw_run :: "addr \<Rightarrow> rw_event list \<Rightarrow> heap \<times> holders \<Rightarrow> (heap \<times> holders) option" where
  "rw_run l [] s = Some s"
| "rw_run l (e # es) s =
     (if \<not> permitted e (snd s) then None
      else
        case exec (rw_call l e) (fst s) of
          Returns h' \<Rightarrow> rw_run l es (h', completed e (snd s))
        | Parked h' \<Rightarrow> rw_run l es (h', snd s)
        | _ \<Rightarrow> None)"

text \<open>The encoding of the holds in the state word, in the words of the spec.\<close>

definition rw_encoding :: "addr \<Rightarrow> heap \<Rightarrow> holders \<Rightarrow> bool" where
  "rw_encoding l h g \<longleftrightarrow>
     (sint (rw_state (rwlocks h l)) < 0 \<longleftrightarrow> writers g = 1 \<and> readers g = 0) \<and>
     (sint (rw_state (rwlocks h l)) < 0 \<longrightarrow> rw_state (rwlocks h l) = WRITER_BIT) \<and>
     (0 < sint (rw_state (rwlocks h l)) \<longleftrightarrow> 0 < readers g \<and> writers g = 0) \<and>
     (0 < sint (rw_state (rwlocks h l)) \<longrightarrow> sint (rw_state (rwlocks h l)) = int (readers g)) \<and>
     (rw_state (rwlocks h l) = 0 \<longleftrightarrow> readers g = 0 \<and> writers g = 0)"

text \<open>A call leaves the state word of lock \<open>l\<close> as it found it in \<open>h\<close>.\<close>

fun keeps_state :: "addr \<Rightarrow> heap \<Rightarrow> heap outcome \<Rightarrow> bool" where
  "keeps_state l h (Returns h') = (rw_state (rwlocks h' l) = rw_state (rwlocks h l))"
| "keeps_state l h (Parked h') = (rw_state (rwlocks h' l) = rw_state (rwlocks h l))"
| "keeps_state l h (Blocked h') = (rw_state (rwlocks h' l) = rw_state (rwlocks h l))"
| "keeps_state l h _ = True"

text \<open>
  What a request for a read hold, a request for a write hold and a release do to the
  state word \<open>s\<close> of lock \<open>l\<close>, read off the outcome of the call.
\<close>

fun rd_effect :: "addr \<Rightarrow> long \<Rightarrow> heap outcome \<Rightarrow> bool" where
  "rd_effect l s (Returns h') =
     (0 \<le> sint s \<and> s \<noteq> READER_MASK \<and> rw_state (rwlocks h' l) = s + 1)"
| "rd_effect l s (Parked h') = (rw_state (rwlocks h' l) = s)"
| "rd_effect l s _ = True"

fun wr_effect :: "addr \<Rightarrow> long \<Rightarrow> heap outcome \<Rightarrow> bool" where
  "wr_effect l s (Returns h') = (s = 0 \<and> rw_state (rwlocks h' l) = WRITER_BIT)"
| "wr_effect l s (Parked h') = (rw_state (rwlocks h' l) = s)"
| "wr_effect l s _ = True"

fun un_effect :: "addr \<Rightarrow> long \<Rightarrow> heap outcome \<Rightarrow> bool" where
  "un_effect l s (Returns h') =
     ((s = WRITER_BIT \<and> rw_state (rwlocks h' l) = 0) \<or>
      (0 < sint s \<and> rw_state (rwlocks h' l) = s - 1))"
| "un_effect l s (Parked h') = False"
| "un_effect l s _ = True"

subsection \<open>Invariants of the semaphore\<close>

text \<open>A call that is about to exchange expects a value that is not 0.\<close>

fun pc_ok :: "sem_call \<Rightarrow> bool" where
  "pc_ok (Wait (Wait_cas exp)) = (exp \<noteq> 0)"
| "pc_ok (Timedwait (Timedwait_cas exp)) = (exp \<noteq> 0)"
| "pc_ok _ = True"

definition sem_inv :: "nat \<Rightarrow> sem_system \<Rightarrow> bool" where
  "sem_inv k c \<longleftrightarrow>
     (\<forall>t\<in>set (threads c). pc_ok t) \<and>
     unat (sem_value (sem c)) + waits_done c = k + posts_done c"

text \<open>What a call of each kind has done to the semaphore, by its position.\<close>

fun one_increment :: "(vlc_sem_t \<times> vlc_sem_t) list \<Rightarrow> bool" where
  "one_increment [(s, s')] =
     (sem_value s \<noteq> UINT_MAX \<and>
      s' = s\<lparr>sem_value := sem_value s + 1, sem_notified := sem_notified s + 1\<rparr>)"
| "one_increment _ = False"

fun one_decrement :: "(vlc_sem_t \<times> vlc_sem_t) list \<Rightarrow> bool" where
  "one_decrement [(s, s')] = (sem_value s \<noteq> 0 \<and> s' = s\<lparr>sem_value := sem_value s - 1\<rparr>)"
| "one_decrement _ = False"

text \<open>
  A post, by its position, with what it has seen and done: the \<open>exp\<close> that it is about to test
  is a count that it has seen.
\<close>

fun post_inv :: "sem_call \<Rightarrow> vlc_sem_t list \<Rightarrow> (vlc_sem_t \<times> vlc_sem_t) list \<Rightarrow> bool" where
  "post_inv (Post Post_load) views effs = (views = [] \<and> effs = [])"
| "post_inv (Post (Post_cas exp)) views effs = ((\<exists>s\<in>set views. sem_value s = exp) \<and> effs = [])"
| "post_inv (Post (Post_returned r)) views effs =
     ((r = EOVERFLOW \<and> effs = [] \<and> (\<exists>s\<in>set views. sem_value s = UINT_MAX)) \<or>
      (r = 0 \<and> one_increment effs))"
| "post_inv _ views effs = False"

fun timedwait_inv :: "sem_call \<Rightarrow> (vlc_sem_t \<times> vlc_sem_t) list \<Rightarrow> bool" where
  "timedwait_inv (Timedwait (Timedwait_returned r)) effs =
     ((r = ETIMEDOUT \<and> effs = []) \<or> (r = 0 \<and> one_decrement effs))"
| "timedwait_inv (Timedwait (Timedwait_cas exp)) effs = (exp \<noteq> 0 \<and> effs = [])"
| "timedwait_inv (Timedwait Timedwait_park) effs = (effs = [])"
| "timedwait_inv _ effs = False"

subsection \<open>Sample platform decisions\<close>

definition quiet :: env where
  "quiet = \<lparr>cas_fails = False, park = Sleeps\<rparr>"

definition woken :: env where
  "woken = \<lparr>cas_fails = False, park = Wakes\<rparr>"

definition elapsed :: env where
  "elapsed = \<lparr>cas_fails = False, park = Elapses\<rparr>"

definition failing :: env where
  "failing = \<lparr>cas_fails = True, park = Sleeps\<rparr>"

chapter \<open>Properties\<close>

section \<open>Lock marks\<close>

lemma vlc_lock_mark_cmp_eq_0: "vlc_lock_mark_cmp ma mb = 0 \<longleftrightarrow> object ma = object mb"
  by (simp add: vlc_lock_mark_cmp_def)

lemma vlc_lock_mark_cmp_antisym: "vlc_lock_mark_cmp ma mb = - vlc_lock_mark_cmp mb ma"
  by (auto simp: vlc_lock_mark_cmp_def)

lemma vlc_lock_mark_eq:
  "vlc_lock_mark True True lock root =
     Returns (root(lock \<mapsto> (case root lock of None \<Rightarrow> 1 | Some r \<Rightarrow> r + 1)))"
  by (simp add: vlc_lock_mark_def tsearch_def tfind_def store_def split: option.splits)

lemma vlc_lock_unmark_eq:
  "vlc_lock_unmark lock root =
     (case root lock of
        None \<Rightarrow> Aborted
      | Some r \<Rightarrow>
          if r = 0 then Aborted
          else if r = 1 then Returns (root(lock := None))
          else Returns (root(lock \<mapsto> r - 1)))"
  by (auto simp: vlc_lock_unmark_def tfind_def store_def tdelete_def Let_def
      word_greater_zero_iff split: option.splits)

lemma vlc_lock_marked_eq: "vlc_lock_marked lock root = (root lock \<noteq> None)"
  by (simp add: vlc_lock_marked_def tfind_def split: option.splits)

text \<open>
  C9. For a lock that is not marked, two \<open>mark\<close> calls followed by two \<open>unmark\<close> calls go
  through the sets \<open>root(lock \<mapsto> 1)\<close>, \<open>root(lock \<mapsto> 2)\<close>, \<open>root(lock \<mapsto> 1)\<close> and \<open>root\<close>:
  the lock is marked after the first \<open>mark\<close>, after the second, after the first \<open>unmark\<close>,
  and is unmarked again only after the second \<open>unmark\<close>. In any set, \<open>mark\<close> (when both
  allocations succeed) inserts the lock with count 1 if it is absent and increments its
  count otherwise; \<open>unmark\<close> of an entry with a positive count decrements it and removes the
  entry exactly when the new count is zero; \<open>unmark\<close> of an absent lock ends the process.
\<close>

theorem vlc_lock_mark_unmark_recursion:
  assumes "\<not> vlc_lock_marked lock root"
  shows "vlc_lock_mark True True lock root = Returns (root(lock \<mapsto> 1)) \<and>
         vlc_lock_marked lock (root(lock \<mapsto> 1)) \<and>
         vlc_lock_mark True True lock (root(lock \<mapsto> 1)) = Returns (root(lock \<mapsto> 2)) \<and>
         vlc_lock_marked lock (root(lock \<mapsto> 2)) \<and>
         vlc_lock_unmark lock (root(lock \<mapsto> 2)) = Returns (root(lock \<mapsto> 1)) \<and>
         vlc_lock_unmark lock (root(lock \<mapsto> 1)) = Returns root \<and>
         (\<forall>t. vlc_lock_mark True True lock t =
                Returns (t(lock \<mapsto> (case t lock of None \<Rightarrow> 1 | Some r \<Rightarrow> r + 1)))) \<and>
         (\<forall>t r. t lock = Some r \<and> 0 < r \<longrightarrow>
                vlc_lock_unmark lock t =
                  Returns (if r - 1 = 0 then t(lock := None) else t(lock \<mapsto> r - 1))) \<and>
         (\<forall>t. t lock = None \<longrightarrow> vlc_lock_unmark lock t = Aborted)"
proof -
  from assms have absent: "root lock = None"
    by (simp add: vlc_lock_marked_eq)
  have scenario:
    "vlc_lock_mark True True lock root = Returns (root(lock \<mapsto> 1))"
    "vlc_lock_marked lock (root(lock \<mapsto> 1))"
    "vlc_lock_mark True True lock (root(lock \<mapsto> 1)) = Returns (root(lock \<mapsto> 2))"
    "vlc_lock_marked lock (root(lock \<mapsto> 2))"
    "vlc_lock_unmark lock (root(lock \<mapsto> 2)) = Returns (root(lock \<mapsto> 1))"
    using absent by (simp_all add: vlc_lock_mark_eq vlc_lock_unmark_eq vlc_lock_marked_eq)
  have last: "vlc_lock_unmark lock (root(lock \<mapsto> 1)) = Returns root"
    using absent by (simp add: vlc_lock_unmark_eq fun_upd_idem)
  have decr: "vlc_lock_unmark lock t =
      Returns (if r - 1 = 0 then t(lock := None) else t(lock \<mapsto> r - 1))"
    if "t lock = Some r" "0 < r" for t r
    using that by (auto simp: vlc_lock_unmark_eq word_greater_zero_iff)
  have gone: "vlc_lock_unmark lock t = Aborted" if "t lock = None" for t
    using that by (simp add: vlc_lock_unmark_eq)
  show ?thesis
    using scenario last decr gone by (simp add: vlc_lock_mark_eq)
qed

theorem vlc_lock_mark_unmark_recursion_witness:
  "\<not> vlc_lock_marked 7 vlc_mutex_marks_init \<and>
   vlc_lock_mark True True 7 vlc_mutex_marks_init = Returns [7 \<mapsto> 1] \<and>
   vlc_lock_marked 7 [7 \<mapsto> 1] \<and>
   vlc_lock_mark True True 7 [7 \<mapsto> 1] = Returns [7 \<mapsto> 2] \<and>
   vlc_lock_marked 7 [7 \<mapsto> 2] \<and>
   vlc_lock_unmark 7 [7 \<mapsto> 2] = Returns [7 \<mapsto> 1] \<and>
   vlc_lock_unmark 7 [7 \<mapsto> 1] = Returns vlc_mutex_marks_init"
proof -
  have unmarked: "\<not> vlc_lock_marked 7 Map.empty"
    by (simp add: vlc_lock_marked_def tfind_def)
  show ?thesis
    using unmarked vlc_lock_mark_unmark_recursion [OF unmarked]
    by (simp add: vlc_mutex_marks_init_def)
qed

section \<open>Counting semaphores\<close>

lemma sum_list_map_update:
  "i < length ts \<Longrightarrow>
     sum_list (map f (ts[i := t])) + f (ts ! i) = sum_list (map f ts) + (f t :: nat)"
proof (induction ts arbitrary: i)
  case Nil
  then show ?case by simp
next
  case (Cons a ts)
  then show ?case by (cases i) (auto simp: add.assoc add.left_commute)
qed

lemma entry_pc_ok: "entry t \<Longrightarrow> pc_ok t"
  by (cases t) auto

lemma vlc_sem_post_cas:
  assumes "vlc_sem_post e (Post_cas exp) s = (pc', s')"
  shows "(pc' = Post_returned EOVERFLOW \<and> s' = s \<and> exp = UINT_MAX) \<or>
         (pc' = Post_returned 0 \<and> sem_value s \<noteq> UINT_MAX \<and> exp = sem_value s \<and>
          s' = s\<lparr>sem_value := sem_value s + 1, sem_notified := sem_notified s + 1\<rparr>) \<or>
         (pc' = Post_cas (sem_value s) \<and> s' = s)"
  using assms
  by (auto simp: atomic_compare_exchange_weak_def vlc_atomic_notify_one_def split: if_splits)

lemma vlc_sem_wait_cas:
  assumes "vlc_sem_wait e (Wait_cas exp) s = (pc', s')"
  shows "(pc' = Wait_returned \<and> exp = sem_value s \<and> s' = s\<lparr>sem_value := sem_value s - 1\<rparr>) \<or>
         (pc' = Wait_park \<and> sem_value s = 0 \<and> s' = s) \<or>
         (pc' = Wait_cas (sem_value s) \<and> sem_value s \<noteq> 0 \<and> s' = s)"
  using assms
  by (auto simp: atomic_compare_exchange_weak_def split: if_splits)

lemma vlc_sem_wait_park:
  assumes "vlc_sem_wait e Wait_park s = (pc', s')"
  shows "s' = s \<and> (pc' = Wait_park \<or> pc' = Wait_cas 1)"
  using assms by (auto split: option.splits)

lemma vlc_sem_timedwait_cas:
  assumes "vlc_sem_timedwait e (Timedwait_cas exp) s = (pc', s')"
  shows "(pc' = Timedwait_returned 0 \<and> exp = sem_value s \<and>
          s' = s\<lparr>sem_value := sem_value s - 1\<rparr>) \<or>
         (pc' = Timedwait_park \<and> sem_value s = 0 \<and> s' = s) \<or>
         (pc' = Timedwait_cas (sem_value s) \<and> sem_value s \<noteq> 0 \<and> s' = s)"
  using assms
  by (auto simp: atomic_compare_exchange_weak_def split: if_splits)

lemma vlc_sem_timedwait_park:
  assumes "vlc_sem_timedwait e Timedwait_park s = (pc', s')"
  shows "s' = s \<and>
         (pc' = Timedwait_park \<or> pc' = Timedwait_cas 1 \<or>
          (pc' = Timedwait_returned ETIMEDOUT \<and> park e = Elapses))"
  using assms
  by (auto simp: vlc_atomic_timedwait_def ETIMEDOUT_def split: option.splits if_splits park.splits)

lemma vlc_sem_timedwait_elapses:
  "park e = Elapses \<Longrightarrow> vlc_sem_timedwait e Timedwait_park s = (Timedwait_returned ETIMEDOUT, s)"
  by (simp add: vlc_atomic_timedwait_def ETIMEDOUT_def)


lemma unat_incr:
  assumes "(x :: unsigned) \<noteq> UINT_MAX"
  shows "unat (x + 1) = unat x + 1"
proof -
  have "unat x \<noteq> unat UINT_MAX"
    using assms by (simp add: word_unat_eq_iff)
  moreover have "unat x < 2 ^ 32"
    using unsigned_less [of x] by simp
  ultimately have "unat x + 1 < 2 ^ 32"
    by (simp add: UINT_MAX_def)
  then show ?thesis
    by (simp add: unat_word_ariths)
qed

lemma unat_decr: "(x :: unsigned) \<noteq> 0 \<Longrightarrow> unat (x - 1) + 1 = unat x"
  by (simp add: unat_gt_0 unat_minus_one)

lemma call_step_Post:
  "call_step e (Post pc) s = (t', s') \<Longrightarrow> \<exists>pc'. t' = Post pc' \<and> vlc_sem_post e pc s = (pc', s')"
  by (auto split: prod.splits)

lemma call_step_Wait:
  "call_step e (Wait pc) s = (t', s') \<Longrightarrow> \<exists>pc'. t' = Wait pc' \<and> vlc_sem_wait e pc s = (pc', s')"
  by (auto split: prod.splits)

lemma call_step_Timedwait:
  "call_step e (Timedwait pc) s = (t', s') \<Longrightarrow>
     \<exists>pc'. t' = Timedwait pc' \<and> vlc_sem_timedwait e pc s = (pc', s')"
  by (auto split: prod.splits)

lemma call_step_pc_ok:
  assumes "pc_ok t" "call_step e t s = (t', s')"
  shows "pc_ok t'"
proof (cases t)
  case (Post pc)
  with assms call_step_Post show ?thesis by fastforce
next
  case (Wait pc)
  with assms obtain pc' where t': "t' = Wait pc'" and st: "vlc_sem_wait e pc s = (pc', s')"
    using call_step_Wait by blast
  show ?thesis
  proof (cases pc)
    case (Wait_cas exp)
    with st vlc_sem_wait_cas t' show ?thesis by fastforce
  next
    case Wait_park
    with st vlc_sem_wait_park t' show ?thesis by fastforce
  next
    case Wait_returned
    with st t' show ?thesis by auto
  qed
next
  case (Timedwait pc)
  with assms obtain pc' where t': "t' = Timedwait pc'"
    and st: "vlc_sem_timedwait e pc s = (pc', s')"
    using call_step_Timedwait by blast
  show ?thesis
  proof (cases pc)
    case (Timedwait_cas exp)
    with st vlc_sem_timedwait_cas t' show ?thesis by fastforce
  next
    case Timedwait_park
    with st vlc_sem_timedwait_park t' show ?thesis by fastforce
  next
    case (Timedwait_returned r)
    with st t' show ?thesis by auto
  qed
qed

lemma call_step_conserves:
  assumes "pc_ok t" "call_step e t s = (t', s')"
  shows "unat (sem_value s') + waited t' + posted t = unat (sem_value s) + posted t' + waited t"
proof (cases t)
  case (Post pc)
  show ?thesis
  proof (cases pc)
    case Post_load
    with Post assms show ?thesis by (auto simp: atomic_load_def)
  next
    case (Post_cas exp)
    with Post assms obtain pc' where t': "t' = Post pc'"
      and st: "vlc_sem_post e (Post_cas exp) s = (pc', s')"
      by (auto split: prod.splits)
    from vlc_sem_post_cas [OF st] show ?thesis
      using Post Post_cas t' by (auto simp: unat_incr EOVERFLOW_def)
  next
    case (Post_returned r)
    with Post assms show ?thesis by auto
  qed
next
  case (Wait pc)
  show ?thesis
  proof (cases pc)
    case (Wait_cas exp)
    with Wait assms obtain pc' where t': "t' = Wait pc'"
      and st: "vlc_sem_wait e (Wait_cas exp) s = (pc', s')" and nz: "exp \<noteq> 0"
      by (auto split: prod.splits)
    from vlc_sem_wait_cas [OF st] show ?thesis
      using Wait Wait_cas t' nz unat_decr [of "sem_value s"] by auto
  next
    case Wait_park
    with Wait assms obtain pc' where t': "t' = Wait pc'"
      and st: "vlc_sem_wait e Wait_park s = (pc', s')"
      by (auto split: prod.splits)
    from vlc_sem_wait_park [OF st] show ?thesis
      using Wait Wait_park t' by auto
  next
    case Wait_returned
    with Wait assms show ?thesis by auto
  qed
next
  case (Timedwait pc)
  show ?thesis
  proof (cases pc)
    case (Timedwait_cas exp)
    with Timedwait assms obtain pc' where t': "t' = Timedwait pc'"
      and st: "vlc_sem_timedwait e (Timedwait_cas exp) s = (pc', s')" and nz: "exp \<noteq> 0"
      by (auto split: prod.splits)
    from vlc_sem_timedwait_cas [OF st] show ?thesis
      using Timedwait Timedwait_cas t' nz unat_decr [of "sem_value s"] by auto
  next
    case Timedwait_park
    with Timedwait assms obtain pc' where t': "t' = Timedwait pc'"
      and st: "vlc_sem_timedwait e Timedwait_park s = (pc', s')"
      by (auto split: prod.splits)
    from vlc_sem_timedwait_park [OF st] show ?thesis
      using Timedwait Timedwait_park t' by (auto simp: ETIMEDOUT_def)
  next
    case (Timedwait_returned r)
    with Timedwait assms show ?thesis by auto
  qed
qed

lemma sem_step_inv:
  assumes "sem_inv k c"
  shows "sem_inv k (sem_step x c)"
proof (cases x)
  case (Pair i e)
  show ?thesis
  proof (cases "i < length (threads c)")
    case False
    with Pair assms show ?thesis by (simp add: sem_step_def)
  next
    case True
    obtain t' s' where st: "call_step e (threads c ! i) (sem c) = (t', s')"
      by (cases "call_step e (threads c ! i) (sem c)")
    have c': "sem_step x c = \<lparr>sem = s', threads = (threads c)[i := t']\<rparr>"
      using Pair True st by (simp add: sem_step_def)
    have ok: "pc_ok (threads c ! i)"
      using assms True by (simp add: sem_inv_def)
    have ok': "pc_ok t'"
      using call_step_pc_ok [OF ok st] .
    have all_ok: "\<forall>t\<in>set ((threads c)[i := t']). pc_ok t"
      using assms ok' by (auto simp: sem_inv_def dest!: subsetD [OF set_update_subset_insert])
    have w: "waits_done (sem_step x c) + waited (threads c ! i) = waits_done c + waited t'"
      using sum_list_map_update [OF True, of waited t'] by (simp add: c' waits_done_def)
    have p: "posts_done (sem_step x c) + posted (threads c ! i) = posts_done c + posted t'"
      using sum_list_map_update [OF True, of posted t'] by (simp add: c' posts_done_def)
    have "unat (sem_value (sem c)) + waits_done c = k + posts_done c"
      using assms by (simp add: sem_inv_def)
    with call_step_conserves [OF ok st] w p
    have "unat (sem_value s') + waits_done (sem_step x c) = k + posts_done (sem_step x c)"
      by linarith
    with all_ok show ?thesis
      by (simp add: sem_inv_def c')
  qed
qed

lemma sem_run_inv: "sem_inv k c \<Longrightarrow> sem_inv k (sem_run sched c)"
  unfolding sem_run_def
  by (induction sched arbitrary: c) (simp_all add: sem_step_inv)


lemma sem_step_length [simp]: "length (threads (sem_step x c)) = length (threads c)"
  by (cases x) (simp add: sem_step_def split: prod.splits)

lemma sem_run_length [simp]: "length (threads (sem_run sched c)) = length (threads c)"
  unfolding sem_run_def by (induction sched arbitrary: c) simp_all

lemma sem_run_snoc: "sem_run (sched @ [x]) c = sem_step x (sem_run sched c)"
  by (simp add: sem_run_def)

lemma own_effects_snoc:
  "own_effects i (sched @ [x]) c =
     own_effects i sched c @
     (if fst x = i \<and> sem (sem_step x (sem_run sched c)) \<noteq> sem (sem_run sched c)
      then [(sem (sem_run sched c), sem (sem_step x (sem_run sched c)))] else [])"
  by (induction sched arbitrary: c) (simp_all add: sem_run_def)

lemma sem_step_other:
  "fst x \<noteq> i \<Longrightarrow> threads (sem_step x c) ! i = threads c ! i"
  by (cases x) (simp add: sem_step_def split: prod.splits)

lemma sem_step_own:
  assumes "i < length (threads c)"
  shows "call_step e (threads c ! i) (sem c) =
           (threads (sem_step (i, e) c) ! i, sem (sem_step (i, e) c))"
  using assms by (simp add: sem_step_def split: prod.splits)

lemma one_increment_iff:
  "one_increment effs \<longleftrightarrow>
     (\<exists>s. sem_value s \<noteq> UINT_MAX \<and>
          effs = [(s, s\<lparr>sem_value := sem_value s + 1, sem_notified := sem_notified s + 1\<rparr>)])"
  by (cases effs rule: one_increment.cases) auto

lemma one_decrement_iff:
  "one_decrement effs \<longleftrightarrow>
     (\<exists>s. sem_value s \<noteq> 0 \<and> effs = [(s, s\<lparr>sem_value := sem_value s - 1\<rparr>)])"
  by (cases effs rule: one_decrement.cases) auto

lemma own_views_snoc:
  "own_views i (sched @ [x]) c =
     own_views i sched c @
     (if fst x = i \<and> i < length (threads c) \<and> \<not> returned (threads (sem_run sched c) ! i)
      then [sem (sem_run sched c)] else [])"
  by (induction sched arbitrary: c) (simp_all add: sem_run_def)

lemma post_inv_step:
  assumes "post_inv t views effs" "call_step e t s = (t', s')"
  shows "post_inv t' (views @ (if \<not> returned t then [s] else []))
           (effs @ (if s' \<noteq> s then [(s, s')] else []))"
proof (cases t)
  case (Post pc)
  with assms(2) obtain pc' where t': "t' = Post pc'" and st: "vlc_sem_post e pc s = (pc', s')"
    using call_step_Post by blast
  show ?thesis
  proof (cases pc)
    case Post_load
    with st t' assms(1) Post show ?thesis by (auto simp: atomic_load_def)
  next
    case (Post_cas exp)
    with st have "vlc_sem_post e (Post_cas exp) s = (pc', s')" by simp
    from vlc_sem_post_cas [OF this] consider
      (over) "pc' = Post_returned EOVERFLOW" "s' = s" "exp = UINT_MAX"
      | (succ) "pc' = Post_returned 0" "sem_value s \<noteq> UINT_MAX"
          "s' = s\<lparr>sem_value := sem_value s + 1, sem_notified := sem_notified s + 1\<rparr>"
      | (retry) "pc' = Post_cas (sem_value s)" "s' = s"
      by blast
    then show ?thesis
    proof cases
      case over
      with t' assms(1) Post Post_cas show ?thesis by auto
    next
      case succ
      have "sem_notified s' \<noteq> sem_notified s" using succ(3) by simp
      then have "s' \<noteq> s" by auto
      with succ t' assms(1) Post Post_cas show ?thesis by auto
    next
      case retry
      with t' assms(1) Post Post_cas show ?thesis by simp
    qed
  next
    case (Post_returned r)
    with st t' assms(1) Post show ?thesis by auto
  qed
next
  case (Wait pc)
  with assms(1) show ?thesis by simp
next
  case (Timedwait pc)
  with assms(1) show ?thesis by simp
qed

lemma timedwait_inv_step:
  assumes "timedwait_inv t effs" "call_step e t s = (t', s')"
  shows "timedwait_inv t' (effs @ (if s' \<noteq> s then [(s, s')] else []))"
proof (cases t)
  case (Timedwait pc)
  with assms(2) obtain pc' where t': "t' = Timedwait pc'"
    and st: "vlc_sem_timedwait e pc s = (pc', s')"
    using call_step_Timedwait by blast
  show ?thesis
  proof (cases pc)
    case (Timedwait_cas exp)
    with assms(1) Timedwait have nz: "exp \<noteq> 0" and effs: "effs = []" by simp_all
    from st Timedwait_cas have "vlc_sem_timedwait e (Timedwait_cas exp) s = (pc', s')" by simp
    from vlc_sem_timedwait_cas [OF this] consider
      (succ) "pc' = Timedwait_returned 0" "exp = sem_value s"
          "s' = s\<lparr>sem_value := sem_value s - 1\<rparr>"
      | (park) "pc' = Timedwait_park" "s' = s"
      | (retry) "pc' = Timedwait_cas (sem_value s)" "sem_value s \<noteq> 0" "s' = s"
      by blast
    then show ?thesis
    proof cases
      case succ
      have "sem_value s' \<noteq> sem_value s" using succ(3) by simp
      then have "s' \<noteq> s" by auto
      with succ t' nz effs show ?thesis by auto
    next
      case park
      with t' effs show ?thesis by simp
    next
      case retry
      with t' effs show ?thesis by simp
    qed
  next
    case Timedwait_park
    with st have "vlc_sem_timedwait e Timedwait_park s = (pc', s')" by simp
    from vlc_sem_timedwait_park [OF this] show ?thesis
      using t' assms(1) Timedwait Timedwait_park by auto
  next
    case (Timedwait_returned r)
    with st t' assms(1) Timedwait show ?thesis by auto
  qed
next
  case (Wait pc)
  with assms(1) show ?thesis by simp
next
  case (Post pc)
  with assms(1) show ?thesis by simp
qed

lemma own_effects_inv:
  assumes step: "\<And>t effs e s t' s'. I t effs \<Longrightarrow> call_step e t s = (t', s') \<Longrightarrow>
                   I t' (effs @ (if s' \<noteq> s then [(s, s')] else []))"
    and i: "i < length (threads c)" and init: "I (threads c ! i) []"
  shows "I (threads (sem_run sched c) ! i) (own_effects i sched c)"
proof (induction sched rule: rev_induct)
  case Nil
  with init show ?case by (simp add: sem_run_def)
next
  case (snoc x sched)
  let ?c = "sem_run sched c"
  show ?case
  proof (cases "fst x = i")
    case False
    with snoc show ?thesis
      by (simp add: own_effects_snoc sem_run_snoc sem_step_other)
  next
    case True
    then obtain e where x: "x = (i, e)" by (cases x) simp
    have len: "i < length (threads ?c)" using i by simp
    from step [OF snoc sem_step_own [OF len]]
    show ?thesis
      by (simp add: own_effects_snoc sem_run_snoc x)
  qed
qed


lemma call_step_is_post: "call_step e t s = (t', s') \<Longrightarrow> is_post t' = is_post t"
  by (cases t) (auto split: prod.splits)

lemma call_step_no_post:
  assumes "pc_ok t" "\<not> is_post t" "sem_value s = 0" "call_step e t s = (t', s')"
  shows "s' = s \<and> waited t' = waited t"
proof (cases t)
  case (Post pc)
  with assms(2) show ?thesis by simp
next
  case (Wait pc)
  with assms(4) obtain pc' where t': "t' = Wait pc'" and st: "vlc_sem_wait e pc s = (pc', s')"
    using call_step_Wait by blast
  show ?thesis
  proof (cases pc)
    case (Wait_cas exp)
    with st have "vlc_sem_wait e (Wait_cas exp) s = (pc', s')" by simp
    from vlc_sem_wait_cas [OF this] show ?thesis
      using assms(1,3) Wait Wait_cas t' by auto
  next
    case Wait_park
    with st have "vlc_sem_wait e Wait_park s = (pc', s')" by simp
    from vlc_sem_wait_park [OF this] show ?thesis
      using Wait Wait_park t' by auto
  next
    case Wait_returned
    with st t' Wait show ?thesis by auto
  qed
next
  case (Timedwait pc)
  with assms(4) obtain pc' where t': "t' = Timedwait pc'"
    and st: "vlc_sem_timedwait e pc s = (pc', s')"
    using call_step_Timedwait by blast
  show ?thesis
  proof (cases pc)
    case (Timedwait_cas exp)
    with st have "vlc_sem_timedwait e (Timedwait_cas exp) s = (pc', s')" by simp
    from vlc_sem_timedwait_cas [OF this] show ?thesis
      using assms(1,3) Timedwait Timedwait_cas t' by auto
  next
    case Timedwait_park
    with st have "vlc_sem_timedwait e Timedwait_park s = (pc', s')" by simp
    from vlc_sem_timedwait_park [OF this] show ?thesis
      using Timedwait Timedwait_park t' by (auto simp: ETIMEDOUT_def)
  next
    case (Timedwait_returned r)
    with st t' Timedwait show ?thesis by auto
  qed
qed

lemma sem_step_no_post:
  assumes ok: "\<forall>t\<in>set (threads c). pc_ok t" and zero: "sem_value (sem c) = 0"
    and np: "fst x < length (threads c) \<longrightarrow> \<not> is_post (threads c ! fst x)"
  shows "sem (sem_step x c) = sem c \<and> waits_done (sem_step x c) = waits_done c \<and>
         (\<forall>t\<in>set (threads (sem_step x c)). pc_ok t) \<and>
         (\<forall>j<length (threads c). is_post (threads (sem_step x c) ! j) = is_post (threads c ! j))"
proof (cases x)
  case (Pair i e)
  show ?thesis
  proof (cases "i < length (threads c)")
    case False
    with Pair ok show ?thesis by (simp add: sem_step_def)
  next
    case True
    obtain t' s' where st: "call_step e (threads c ! i) (sem c) = (t', s')"
      by (cases "call_step e (threads c ! i) (sem c)")
    have c': "sem_step x c = \<lparr>sem = s', threads = (threads c)[i := t']\<rparr>"
      using Pair True st by (simp add: sem_step_def)
    have oki: "pc_ok (threads c ! i)" using ok True by simp
    have npi: "\<not> is_post (threads c ! i)" using np Pair True by simp
    from call_step_no_post [OF oki npi zero st]
    have s': "s' = sem c" and w: "waited t' = waited (threads c ! i)"
      by simp_all
    have ok': "\<forall>t\<in>set ((threads c)[i := t']). pc_ok t"
      using ok call_step_pc_ok [OF oki st]
      by (auto dest!: subsetD [OF set_update_subset_insert])
    have wd: "waits_done (sem_step x c) = waits_done c"
      using sum_list_map_update [OF True, of waited t'] w by (simp add: c' waits_done_def)
    have kinds: "is_post (((threads c)[i := t']) ! j) = is_post (threads c ! j)"
      if "j < length (threads c)" for j
      using that call_step_is_post [OF st] by (cases "j = i") simp_all
    show ?thesis
      using s' wd ok' kinds by (simp add: c')
  qed
qed

lemma sem_run_no_post:
  assumes "\<forall>t\<in>set (threads c). pc_ok t" "sem_value (sem c) = 0"
    "\<forall>x\<in>set sched. fst x < length (threads c) \<longrightarrow> \<not> is_post (threads c ! fst x)"
  shows "sem (sem_run sched c) = sem c \<and> waits_done (sem_run sched c) = waits_done c"
  using assms
proof (induction sched arbitrary: c)
  case Nil
  then show ?case by (simp add: sem_run_def)
next
  case (Cons x sched)
  have np: "fst x < length (threads c) \<longrightarrow> \<not> is_post (threads c ! fst x)"
    using Cons.prems(3) by simp
  note step = sem_step_no_post [OF Cons.prems(1,2) np]
  have rest: "\<forall>y\<in>set sched. fst y < length (threads (sem_step x c)) \<longrightarrow>
      \<not> is_post (threads (sem_step x c) ! fst y)"
    using Cons.prems(3) step by simp
  have "sem_value (sem (sem_step x c)) = 0"
    using step Cons.prems(2) by simp
  from Cons.IH [OF _ this rest] step
  show ?case by (simp add: sem_run_def)
qed

lemma entry_fresh: "entry t \<Longrightarrow> waited t = 0 \<and> posted t = 0"
  by (cases t) auto

lemma entry_none_done:
  "\<forall>t\<in>set ts. entry t \<Longrightarrow> sum_list (map waited ts) = 0 \<and> sum_list (map posted ts) = 0"
  by (induction ts) (simp_all add: entry_fresh)

lemma sem_start_inv:
  assumes "\<forall>t\<in>set ts. entry t"
  shows "sem_inv (unat v) (sem_start v ts)"
  using assms entry_none_done [OF assms]
  by (simp add: sem_inv_def sem_start_def vlc_sem_init_def waits_done_def posts_done_def
      entry_pc_ok del: sum_list_eq_0_iff)

lemma sem_step_is_post:
  "j < length (threads c) \<Longrightarrow> is_post (threads (sem_step x c) ! j) = is_post (threads c ! j)"
proof (cases x)
  case (Pair i e)
  assume j: "j < length (threads c)"
  show ?thesis
  proof (cases "i < length (threads c)")
    case False
    with Pair show ?thesis by (simp add: sem_step_def)
  next
    case True
    obtain t' s' where st: "call_step e (threads c ! i) (sem c) = (t', s')"
      by (cases "call_step e (threads c ! i) (sem c)")
    then show ?thesis
      using Pair True j call_step_is_post [OF st]
      by (cases "j = i") (simp_all add: sem_step_def)
  qed
qed

lemma sem_run_is_post:
  "j < length (threads c) \<Longrightarrow> is_post (threads (sem_run sched c) ! j) = is_post (threads c ! j)"
  unfolding sem_run_def
  by (induction sched arbitrary: c) (simp_all add: sem_step_is_post)

text \<open>
  C2. Start a semaphore at \<open>v\<close> with any number of calls, none of which has run, and run
  them under any schedule. In the state reached, and so at every prefix, the count plus
  the number of waits that have returned success (\<open>vlc_sem_wait\<close>, and \<open>vlc_sem_timedwait\<close>
  with status 0) equals \<open>v\<close> plus the number of posts that have returned 0; the sum is one
  of natural numbers, so the waits never exceed \<open>v\<close> plus the posts. If the count is 0 in
  that state, then however the threads that are not posting are scheduled from there, the
  count stays 0 and no further wait returns.
\<close>

theorem vlc_sem_conservation:
  assumes "\<forall>t\<in>set ts. entry t"
  shows "unat (sem_value (sem (sem_run sched (sem_start v ts)))) +
           waits_done (sem_run sched (sem_start v ts)) =
         unat v + posts_done (sem_run sched (sem_start v ts)) \<and>
         (sem_value (sem (sem_run sched (sem_start v ts))) = 0 \<and>
          (\<forall>x\<in>set rest. fst x < length ts \<longrightarrow> \<not> is_post (ts ! fst x)) \<longrightarrow>
            sem_value (sem (sem_run rest (sem_run sched (sem_start v ts)))) = 0 \<and>
            waits_done (sem_run rest (sem_run sched (sem_start v ts))) =
              waits_done (sem_run sched (sem_start v ts)))"
proof -
  let ?c = "sem_run sched (sem_start v ts)"
  have inv: "sem_inv (unat v) ?c"
    using sem_start_inv [OF assms] by (rule sem_run_inv)
  then have books: "unat (sem_value (sem ?c)) + waits_done ?c = unat v + posts_done ?c"
    and ok: "\<forall>t\<in>set (threads ?c). pc_ok t"
    by (simp_all add: sem_inv_def)
  have kinds: "is_post (threads ?c ! j) = is_post (ts ! j)" if "j < length ts" for j
    using that sem_run_is_post [of j "sem_start v ts" sched] by (simp add: sem_start_def)
  have len: "length (threads ?c) = length ts"
    by (simp add: sem_start_def)
  have quiet: "sem_value (sem (sem_run rest ?c)) = 0 \<and>
      waits_done (sem_run rest ?c) = waits_done ?c"
    if zero: "sem_value (sem ?c) = 0"
      and np: "\<forall>x\<in>set rest. fst x < length ts \<longrightarrow> \<not> is_post (ts ! fst x)"
  proof -
    have "\<forall>x\<in>set rest. fst x < length (threads ?c) \<longrightarrow> \<not> is_post (threads ?c ! fst x)"
      using np kinds len by simp
    from sem_run_no_post [OF ok zero this] zero show ?thesis by simp
  qed
  from books quiet show ?thesis by blast
qed


theorem vlc_sem_conservation_witness:
  "list_all entry [Post Post_load, Wait (Wait_cas 1), Wait (Wait_cas 1)] \<and>
   sem_run [(0, quiet), (1, quiet), (0, quiet), (1, quiet), (1, quiet)]
     (sem_start 0 [Post Post_load, Wait (Wait_cas 1), Wait (Wait_cas 1)]) =
     \<lparr>sem = \<lparr>sem_value = 0, sem_notified = 1\<rparr>,
      threads = [Post (Post_returned 0), Wait Wait_returned, Wait (Wait_cas 1)]\<rparr> \<and>
   unat (0 :: unsigned) + waits_done
     \<lparr>sem = \<lparr>sem_value = 0, sem_notified = 1\<rparr>,
      threads = [Post (Post_returned 0), Wait Wait_returned, Wait (Wait_cas 1)]\<rparr> =
   unat (0 :: unsigned) + posts_done
     \<lparr>sem = \<lparr>sem_value = 0, sem_notified = 1\<rparr>,
      threads = [Post (Post_returned 0), Wait Wait_returned, Wait (Wait_cas 1)]\<rparr> \<and>
   waits_done
     \<lparr>sem = \<lparr>sem_value = 0, sem_notified = 1\<rparr>,
      threads = [Post (Post_returned 0), Wait Wait_returned, Wait (Wait_cas 1)]\<rparr> = 1 \<and>
   waits_done (sem_run [(2, quiet), (2, quiet), (2, woken)]
     \<lparr>sem = \<lparr>sem_value = 0, sem_notified = 1\<rparr>,
      threads = [Post (Post_returned 0), Wait Wait_returned, Wait (Wait_cas 1)]\<rparr>) = 1"
proof -
  let ?ts = "[Post Post_load, Wait (Wait_cas 1), Wait (Wait_cas 1)]"
  let ?sched = "[(0, quiet), (1, quiet), (0, quiet), (1, quiet), (1, quiet)]"
  let ?rest = "[(2, quiet), (2, quiet), (2, woken)]"
  have fresh: "\<forall>t\<in>set ?ts. entry t"
    by simp
  have run: "sem_run ?sched (sem_start 0 ?ts) =
      \<lparr>sem = \<lparr>sem_value = 0, sem_notified = 1\<rparr>,
       threads = [Post (Post_returned 0), Wait Wait_returned, Wait (Wait_cas 1)]\<rparr>"
    by (simp add: sem_run_def sem_step_def sem_start_def quiet_def vlc_sem_init_def
        atomic_compare_exchange_weak_def vlc_atomic_wait_def atomic_load_def UINT_MAX_def
        vlc_atomic_notify_one_def)
  have waiters_only: "\<forall>x\<in>set ?rest. fst x < length ?ts \<longrightarrow> \<not> is_post (?ts ! fst x)"
    by simp
  note inst = vlc_sem_conservation [OF fresh, of ?sched 0 ?rest, unfolded run]
  show ?thesis
    unfolding run using inst waiters_only
    by (simp add: waits_done_def posts_done_def)
qed

lemma sem_run_two_own:
  assumes "i < length (threads c)"
    and "call_step e1 (threads c ! i) (sem c) = (t1, s1)"
    and "call_step e2 t1 s1 = (t2, s2)"
  shows "sem_run [(i, e1), (i, e2)] c = \<lparr>sem = s2, threads = (threads c)[i := t2]\<rparr>"
  using assms by (simp add: sem_run_def sem_step_def)

lemma post_inv_run:
  assumes i: "i < length (threads c)" and init: "post_inv (threads c ! i) [] []"
  shows "post_inv (threads (sem_run sched c) ! i) (own_views i sched c) (own_effects i sched c)"
proof (induction sched rule: rev_induct)
  case Nil
  with init show ?case by (simp add: sem_run_def)
next
  case (snoc x sched)
  let ?c = "sem_run sched c"
  show ?case
  proof (cases "fst x = i")
    case False
    with snoc show ?thesis
      by (simp add: own_effects_snoc own_views_snoc sem_run_snoc sem_step_other)
  next
    case True
    then obtain e where x: "x = (i, e)" by (cases x) simp
    have len: "i < length (threads ?c)" using i by simp
    from post_inv_step [OF snoc sem_step_own [OF len]]
    show ?thesis
      using i by (simp add: own_effects_snoc own_views_snoc sem_run_snoc x)
  qed
qed

lemma sem_run_returned:
  assumes "i < length (threads c)" "threads c ! i = Post (Post_returned r)"
  shows "sem_run (alone i es) c = c"
proof (induction es)
  case Nil
  show ?case by (simp add: alone_def sem_run_def)
next
  case (Cons e es)
  have "sem_step (i, e) c = c"
    using assms by (simp add: sem_step_def list_update_same_conv)
  with Cons show ?case
    by (simp add: alone_def sem_run_def)
qed

lemma sem_run_retry:
  assumes "i < length (threads c)" "threads c ! i = Post (Post_cas (sem_value (sem c)))"
    "sem_value (sem c) \<noteq> UINT_MAX"
  shows "sem_run (alone i es) c =
           (if list_all cas_fails es then c
            else \<lparr>sem = (sem c)\<lparr>sem_value := sem_value (sem c) + 1,
                                 sem_notified := sem_notified (sem c) + 1\<rparr>,
                  threads = (threads c)[i := Post (Post_returned 0)]\<rparr>)"
proof (induction es)
  case Nil
  show ?case by (simp add: alone_def sem_run_def)
next
  case (Cons e es)
  show ?case
  proof (cases "cas_fails e")
    case True
    have "sem_step (i, e) c = c"
      using assms True
      by (simp add: sem_step_def atomic_compare_exchange_weak_def list_update_same_conv)
    with Cons True show ?thesis
      by (simp add: alone_def sem_run_def)
  next
    case False
    let ?c' = "\<lparr>sem = (sem c)\<lparr>sem_value := sem_value (sem c) + 1,
                                 sem_notified := sem_notified (sem c) + 1\<rparr>,
                  threads = (threads c)[i := Post (Post_returned 0)]\<rparr>"
    have step: "sem_step (i, e) c = ?c'"
      using assms False
      by (simp add: sem_step_def atomic_compare_exchange_weak_def vlc_atomic_notify_one_def)
    have "sem_run (alone i es) ?c' = ?c'"
      using assms(1) by (intro sem_run_returned [where r = 0]) simp_all
    with step False show ?thesis
      by (simp add: alone_def sem_run_def)
  qed
qed

lemma sem_run_post_alone:
  assumes "i < length (threads c)" "threads c ! i = Post Post_load"
    "sem_value (sem c) \<noteq> UINT_MAX"
  shows "sem_run (alone i (e # es)) c =
           (if list_all cas_fails es
            then \<lparr>sem = sem c, threads = (threads c)[i := Post (Post_cas (sem_value (sem c)))]\<rparr>
            else \<lparr>sem = (sem c)\<lparr>sem_value := sem_value (sem c) + 1,
                                 sem_notified := sem_notified (sem c) + 1\<rparr>,
                  threads = (threads c)[i := Post (Post_returned 0)]\<rparr>)"
proof -
  let ?c1 = "\<lparr>sem = sem c, threads = (threads c)[i := Post (Post_cas (sem_value (sem c)))]\<rparr>"
  have step: "sem_step (i, e) c = ?c1"
    using assms by (simp add: sem_step_def atomic_load_def)
  have "sem_run (alone i es) ?c1 =
      (if list_all cas_fails es then ?c1
       else \<lparr>sem = (sem ?c1)\<lparr>sem_value := sem_value (sem ?c1) + 1,
                                 sem_notified := sem_notified (sem ?c1) + 1\<rparr>,
             threads = (threads ?c1)[i := Post (Post_returned 0)]\<rparr>)"
    using assms by (intro sem_run_retry) simp_all
  with step show ?thesis
    by (simp add: alone_def sem_run_def)
qed

text \<open>
  C5. Take a call of \<open>vlc_sem_post\<close> that has not run yet, in any system. Under any
  schedule, if the call has returned, then it returned \<open>EOVERFLOW\<close>, none of its steps
  changed the semaphore (neither the count nor the notifications) and at one of its steps
  the count was \<open>UINT_MAX\<close>; or it returned 0 and exactly one of its steps changed the
  semaphore: it found a count that was not \<open>UINT_MAX\<close>, added 1 to it and notified once.
  So a post that never finds the count at \<open>UINT_MAX\<close> does not return \<open>EOVERFLOW\<close>, whatever
  exchanges fail. If the count is \<open>UINT_MAX\<close> and the call runs its two steps, it returns
  \<open>EOVERFLOW\<close> and the semaphore is as before; it has no step that sleeps. If the count is
  below \<open>UINT_MAX\<close> and the exchange does not fail, the two steps return 0, the count is
  one more (without wrapping) and one notification was made. If the count is below
  \<open>UINT_MAX\<close> and the call runs by itself, then as long as every exchange fails the call is
  about to exchange again, with the same expected count and the semaphore as before, and
  from the first exchange that does not fail it has returned 0, the count is one more and
  one notification was made. \<open>EOVERFLOW\<close> differs from the success status 0.
\<close>

theorem vlc_sem_post_outcome:
  assumes "i < length (threads c)" "threads c ! i = Post Post_load"
  shows "(\<forall>r. threads (sem_run sched c) ! i = Post (Post_returned r) \<longrightarrow>
            (r = EOVERFLOW \<and> own_effects i sched c = [] \<and>
             (\<exists>s\<in>set (own_views i sched c). sem_value s = UINT_MAX)) \<or>
            (r = 0 \<and>
             (\<exists>s. sem_value s \<noteq> UINT_MAX \<and>
                  own_effects i sched c =
                    [(s, s\<lparr>sem_value := sem_value s + 1,
                             sem_notified := sem_notified s + 1\<rparr>)]))) \<and>
         (sem_value (sem c) = UINT_MAX \<longrightarrow>
            sem_run [(i, e1), (i, e2)] c =
              \<lparr>sem = sem c, threads = (threads c)[i := Post (Post_returned EOVERFLOW)]\<rparr>) \<and>
         (sem_value (sem c) \<noteq> UINT_MAX \<and> \<not> cas_fails e2 \<longrightarrow>
            sem_run [(i, e1), (i, e2)] c =
              \<lparr>sem = (sem c)\<lparr>sem_value := sem_value (sem c) + 1,
                               sem_notified := sem_notified (sem c) + 1\<rparr>,
               threads = (threads c)[i := Post (Post_returned 0)]\<rparr> \<and>
            unat (sem_value (sem c) + 1) = unat (sem_value (sem c)) + 1) \<and>
         (sem_value (sem c) \<noteq> UINT_MAX \<longrightarrow>
            sem_run (alone i (e # es)) c =
              (if list_all cas_fails es
               then \<lparr>sem = sem c,
                     threads = (threads c)[i := Post (Post_cas (sem_value (sem c)))]\<rparr>
               else \<lparr>sem = (sem c)\<lparr>sem_value := sem_value (sem c) + 1,
                                    sem_notified := sem_notified (sem c) + 1\<rparr>,
                     threads = (threads c)[i := Post (Post_returned 0)]\<rparr>)) \<and>
         EOVERFLOW \<noteq> 0"
proof -
  have "post_inv (threads c ! i) [] []"
    using assms(2) by simp
  with assms(1)
  have "post_inv (threads (sem_run sched c) ! i) (own_views i sched c) (own_effects i sched c)"
    by (rule post_inv_run)
  then have general: "(r = EOVERFLOW \<and> own_effects i sched c = [] \<and>
       (\<exists>s\<in>set (own_views i sched c). sem_value s = UINT_MAX)) \<or>
      (r = 0 \<and>
       (\<exists>s. sem_value s \<noteq> UINT_MAX \<and>
            own_effects i sched c =
              [(s, s\<lparr>sem_value := sem_value s + 1, sem_notified := sem_notified s + 1\<rparr>)]))"
    if "threads (sem_run sched c) ! i = Post (Post_returned r)" for r
    using that by (simp add: one_increment_iff)
  have load: "call_step e1 (threads c ! i) (sem c) = (Post (Post_cas (sem_value (sem c))), sem c)"
    using assms(2) by (simp add: atomic_load_def)
  have full: "sem_run [(i, e1), (i, e2)] c =
      \<lparr>sem = sem c, threads = (threads c)[i := Post (Post_returned EOVERFLOW)]\<rparr>"
    if "sem_value (sem c) = UINT_MAX"
  proof -
    have "call_step e2 (Post (Post_cas (sem_value (sem c)))) (sem c) =
        (Post (Post_returned EOVERFLOW), sem c)"
      using that by simp
    from sem_run_two_own [OF assms(1) load this] show ?thesis .
  qed
  have room: "sem_run [(i, e1), (i, e2)] c =
      \<lparr>sem = (sem c)\<lparr>sem_value := sem_value (sem c) + 1,
                       sem_notified := sem_notified (sem c) + 1\<rparr>,
       threads = (threads c)[i := Post (Post_returned 0)]\<rparr>"
    if "sem_value (sem c) \<noteq> UINT_MAX" "\<not> cas_fails e2"
  proof -
    have "call_step e2 (Post (Post_cas (sem_value (sem c)))) (sem c) =
        (Post (Post_returned 0),
         (sem c)\<lparr>sem_value := sem_value (sem c) + 1, sem_notified := sem_notified (sem c) + 1\<rparr>)"
      using that by (simp add: atomic_compare_exchange_weak_def vlc_atomic_notify_one_def)
    from sem_run_two_own [OF assms(1) load this] show ?thesis .
  qed
  note retries = sem_run_post_alone [OF assms, of e es]
  have "EOVERFLOW \<noteq> 0"
    by (simp add: EOVERFLOW_def)
  with general full room retries unat_incr show ?thesis
    by blast
qed

theorem vlc_sem_post_outcome_witness:
  "sem_run [(0, quiet), (0, quiet)] (sem_start UINT_MAX [Post Post_load]) =
     \<lparr>sem = vlc_sem_init UINT_MAX, threads = [Post (Post_returned EOVERFLOW)]\<rparr> \<and>
   own_effects 0 [(0, quiet), (0, quiet)] (sem_start UINT_MAX [Post Post_load]) = [] \<and>
   sem_run [(0, quiet), (0, quiet)] (sem_start 5 [Post Post_load]) =
     \<lparr>sem = \<lparr>sem_value = 6, sem_notified = 1\<rparr>, threads = [Post (Post_returned 0)]\<rparr> \<and>
   own_effects 0 [(0, quiet), (0, quiet)] (sem_start 5 [Post Post_load]) =
     [(\<lparr>sem_value = 5, sem_notified = 0\<rparr>, \<lparr>sem_value = 6, sem_notified = 1\<rparr>)] \<and>
   sem_run (alone 0 [quiet, failing, failing]) (sem_start 5 [Post Post_load]) =
     \<lparr>sem = \<lparr>sem_value = 5, sem_notified = 0\<rparr>, threads = [Post (Post_cas 5)]\<rparr> \<and>
   sem_run (alone 0 [quiet, failing, failing, quiet]) (sem_start 5 [Post Post_load]) =
     \<lparr>sem = \<lparr>sem_value = 6, sem_notified = 1\<rparr>, threads = [Post (Post_returned 0)]\<rparr> \<and>
   threads (sem_run [(0, quiet), (1, quiet), (1, quiet), (0, quiet), (0, quiet)]
     (sem_start 4294967294 [Post Post_load, Post Post_load])) =
     [Post (Post_returned EOVERFLOW), Post (Post_returned 0)] \<and>
   map sem_value (own_views 0 [(0, quiet), (1, quiet), (1, quiet), (0, quiet), (0, quiet)]
     (sem_start 4294967294 [Post Post_load, Post Post_load])) =
     [4294967294, UINT_MAX, UINT_MAX]"
proof -
  let ?full = "sem_start UINT_MAX [Post Post_load]"
  let ?room = "sem_start 5 [Post Post_load]"
  let ?last = "sem_start 4294967294 [Post Post_load, Post Post_load]"
  let ?sched = "[(0, quiet), (0, quiet)]"
  let ?race = "[(0, quiet), (1, quiet), (1, quiet), (0, quiet), (0, quiet)]"
  have full: "0 < length (threads ?full)" "threads ?full ! 0 = Post Post_load"
    "sem_value (sem ?full) = UINT_MAX"
    by (simp_all add: sem_start_def vlc_sem_init_def)
  have room: "0 < length (threads ?room)" "threads ?room ! 0 = Post Post_load"
    "sem_value (sem ?room) \<noteq> UINT_MAX" "\<not> cas_fails quiet"
    by (simp_all add: sem_start_def vlc_sem_init_def UINT_MAX_def quiet_def)
  have last: "0 < length (threads ?last)" "threads ?last ! 0 = Post Post_load"
    by (simp_all add: sem_start_def)
  have fails: "list_all cas_fails [failing, failing]" "\<not> list_all cas_fails [failing, failing, quiet]"
    by (simp_all add: failing_def quiet_def)
  have effects: "own_effects 0 ?sched ?full = []"
    "own_effects 0 ?sched ?room =
       [(\<lparr>sem_value = 5, sem_notified = 0\<rparr>, \<lparr>sem_value = 6, sem_notified = 1\<rparr>)]"
    by (simp_all add: sem_step_def sem_start_def quiet_def vlc_sem_init_def
        atomic_compare_exchange_weak_def atomic_load_def UINT_MAX_def vlc_atomic_notify_one_def)
  have race: "threads (sem_run ?race ?last) = [Post (Post_returned EOVERFLOW), Post (Post_returned 0)]"
    "map sem_value (own_views 0 ?race ?last) = [4294967294, UINT_MAX, UINT_MAX]"
    by (simp_all add: sem_run_def sem_step_def sem_start_def quiet_def vlc_sem_init_def
        atomic_compare_exchange_weak_def atomic_load_def UINT_MAX_def vlc_atomic_notify_one_def)
  from vlc_sem_post_outcome [OF last, where sched = ?race] race(1)
  have seen: "\<exists>s\<in>set (own_views 0 ?race ?last). sem_value s = UINT_MAX"
    by (simp add: EOVERFLOW_def)
  show ?thesis
    using vlc_sem_post_outcome [OF full(1,2), where sched = ?sched and ?e1.0 = quiet and ?e2.0 = quiet]
      full(3)
      vlc_sem_post_outcome [OF room(1,2), where sched = ?sched and ?e1.0 = quiet and ?e2.0 = quiet
        and e = quiet and es = "[failing, failing]"]
      vlc_sem_post_outcome [OF room(1,2), where e = quiet and es = "[failing, failing, quiet]"]
      room(3,4) effects fails race seen
    by (simp add: sem_start_def vlc_sem_init_def)
qed


text \<open>
  C7. Take a call of \<open>vlc_sem_timedwait\<close> that has not run yet, in any system. Under any
  schedule, if the call has returned, then it returned \<open>ETIMEDOUT\<close> and none of its steps
  changed the semaphore, or it returned 0 and exactly one of its steps changed the
  semaphore: it found a count that was not 0 and subtracted 1 from it. A call in its park
  whose deadline elapses returns \<open>ETIMEDOUT\<close>, which is not 0, and leaves the semaphore as
  it is.
\<close>

theorem vlc_sem_timedwait_outcome:
  assumes "i < length (threads c)" "threads c ! i = Timedwait (Timedwait_cas 1)"
  shows "(\<forall>r. threads (sem_run sched c) ! i = Timedwait (Timedwait_returned r) \<longrightarrow>
            (r = ETIMEDOUT \<and> own_effects i sched c = []) \<or>
            (r = 0 \<and>
             (\<exists>s. sem_value s \<noteq> 0 \<and>
                  own_effects i sched c = [(s, s\<lparr>sem_value := sem_value s - 1\<rparr>)]))) \<and>
         (\<forall>e s. park e = Elapses \<longrightarrow>
            vlc_sem_timedwait e Timedwait_park s = (Timedwait_returned ETIMEDOUT, s)) \<and>
         ETIMEDOUT \<noteq> 0"
proof -
  have "timedwait_inv (threads c ! i) []"
    using assms(2) by simp
  with timedwait_inv_step assms(1)
  have "timedwait_inv (threads (sem_run sched c) ! i) (own_effects i sched c)"
    by (rule own_effects_inv)
  then have general: "(r = ETIMEDOUT \<and> own_effects i sched c = []) \<or>
      (r = 0 \<and>
       (\<exists>s. sem_value s \<noteq> 0 \<and> own_effects i sched c = [(s, s\<lparr>sem_value := sem_value s - 1\<rparr>)]))"
    if "threads (sem_run sched c) ! i = Timedwait (Timedwait_returned r)" for r
    using that by (simp add: one_decrement_iff)
  have "ETIMEDOUT \<noteq> 0"
    by (simp add: ETIMEDOUT_def)
  with general vlc_sem_timedwait_elapses show ?thesis
    by blast
qed

theorem vlc_sem_timedwait_outcome_witness:
  "sem_run [(0, quiet), (0, elapsed)] (sem_start 0 [Timedwait (Timedwait_cas 1)]) =
     \<lparr>sem = vlc_sem_init 0, threads = [Timedwait (Timedwait_returned ETIMEDOUT)]\<rparr> \<and>
   own_effects 0 [(0, quiet), (0, elapsed)] (sem_start 0 [Timedwait (Timedwait_cas 1)]) = [] \<and>
   sem_run [(0, quiet)] (sem_start 1 [Timedwait (Timedwait_cas 1)]) =
     \<lparr>sem = vlc_sem_init 0, threads = [Timedwait (Timedwait_returned 0)]\<rparr> \<and>
   own_effects 0 [(0, quiet)] (sem_start 1 [Timedwait (Timedwait_cas 1)]) =
     [(\<lparr>sem_value = 1, sem_notified = 0\<rparr>, \<lparr>sem_value = 0, sem_notified = 0\<rparr>)] \<and>
   vlc_sem_timedwait elapsed Timedwait_park (vlc_sem_init 0) =
     (Timedwait_returned ETIMEDOUT, vlc_sem_init 0)"
proof -
  let ?dry = "sem_start 0 [Timedwait (Timedwait_cas 1)]"
  let ?one = "sem_start 1 [Timedwait (Timedwait_cas 1)]"
  have dry: "0 < length (threads ?dry)" "threads ?dry ! 0 = Timedwait (Timedwait_cas 1)"
    by (simp_all add: sem_start_def)
  have one: "0 < length (threads ?one)" "threads ?one ! 0 = Timedwait (Timedwait_cas 1)"
    by (simp_all add: sem_start_def)
  have late: "park elapsed = Elapses"
    by (simp add: elapsed_def)
  have runs:
    "sem_run [(0, quiet), (0, elapsed)] ?dry =
       \<lparr>sem = vlc_sem_init 0, threads = [Timedwait (Timedwait_returned ETIMEDOUT)]\<rparr>"
    "sem_run [(0, quiet)] ?one =
       \<lparr>sem = vlc_sem_init 0, threads = [Timedwait (Timedwait_returned 0)]\<rparr>"
    "own_effects 0 [(0, quiet), (0, elapsed)] ?dry = []"
    "own_effects 0 [(0, quiet)] ?one =
       [(\<lparr>sem_value = 1, sem_notified = 0\<rparr>, \<lparr>sem_value = 0, sem_notified = 0\<rparr>)]"
    by (simp_all add: sem_run_def sem_step_def sem_start_def quiet_def elapsed_def
        vlc_sem_init_def atomic_compare_exchange_weak_def vlc_atomic_timedwait_def
        ETIMEDOUT_def)
  from vlc_sem_timedwait_outcome [OF dry, of "[(0, quiet), (0, elapsed)]"] late
  have "vlc_sem_timedwait elapsed Timedwait_park (vlc_sem_init 0) =
      (Timedwait_returned ETIMEDOUT, vlc_sem_init 0)"
    by blast
  with runs show ?thesis
    by blast
qed

section \<open>Condition variables\<close>

subsection \<open>Reading memory after a write\<close>

lemma cond_at_cond_upd [simp]:
  "cond_at p (cond_upd p' f h) = (if p = p' then f (cond_at p h) else cond_at p h)"
  by (cases p; cases p') auto

lemma waiters_cond_upd [simp]: "waiters (cond_upd p f h) = waiters h"
  by (cases p) auto

lemma notified_cond_upd [simp]: "notified (cond_upd p f h) = notified h"
  by (cases p) auto

lemma mutexes_cond_upd [simp]: "mutexes (cond_upd p f h) = mutexes h"
  by (cases p) auto

lemma rw_state_cond_upd [simp]: "rw_state (rwlocks (cond_upd p f h) l) = rw_state (rwlocks h l)"
  by (cases p) auto

lemma rw_mutex_cond_upd [simp]: "rw_mutex (rwlocks (cond_upd p f h) l) = rw_mutex (rwlocks h l)"
  by (cases p) auto

lemma cond_at_waiter_upd [simp]: "cond_at p (waiter_upd w f h) = cond_at p h"
  by (cases p) (auto simp: waiter_upd_def)

lemma waiters_waiter_upd [simp]:
  "waiters (waiter_upd w f h) = (waiters h)(w := f (waiters h w))"
  by (simp add: waiter_upd_def)

lemma notified_waiter_upd [simp]: "notified (waiter_upd w f h) = notified h"
  by (simp add: waiter_upd_def)

lemma rwlocks_waiter_upd [simp]: "rwlocks (waiter_upd w f h) = rwlocks h"
  by (simp add: waiter_upd_def)

lemma mutexes_waiter_upd [simp]: "mutexes (waiter_upd w f h) = mutexes h"
  by (simp add: waiter_upd_def)

lemma mutex_at_waiter_upd [simp]: "mutex_at m (waiter_upd w f h) = mutex_at m h"
  by (cases m) simp_all

lemma mutex_at_cond_upd [simp]:
  "mutex_at m (cond_upd p f h) =
     (if m = Cond_lock p then c_lock (f (cond_at p h)) else mutex_at m h)"
  by (cases m) auto

lemma waiters_mutex_set [simp]: "waiters (mutex_set m b h) = waiters h"
  by (cases m) auto

lemma notified_mutex_set [simp]: "notified (mutex_set m b h) = notified h"
  by (cases m) auto

lemma c_head_mutex_set [simp]: "c_head (cond_at p (mutex_set m b h)) = c_head (cond_at p h)"
  by (cases m; cases p) auto

lemma rw_state_mutex_set [simp]: "rw_state (rwlocks (mutex_set m b h) l) = rw_state (rwlocks h l)"
  by (cases m) auto

lemma cond_at_mutex_set [simp]:
  "cond_at p (mutex_set m b h) =
     (if m = Cond_lock p then (cond_at p h)\<lparr>c_lock := b\<rparr> else cond_at p h)"
  by (cases m; cases p) auto

lemma mutexes_mutex_set [simp]:
  "mutexes (mutex_set m b h) a = (if m = Mutex a then b else mutexes h a)"
  by (cases m) auto

lemma rw_mutex_mutex_set [simp]:
  "rw_mutex (rwlocks (mutex_set m b h) l) =
     (if m = Rwlock_mutex l then b else rw_mutex (rwlocks h l))"
  by (cases m) auto

lemma mutex_at_mutex_set [simp]:
  "mutex_at m (mutex_set m' b h) = (if m = m' then b else mutex_at m h)"
  by (cases m) (auto simp del: mutex_set.simps)

lemma and_then_Returns_iff:
  "and_then x f = Returns y \<longleftrightarrow> (\<exists>z. x = Returns z \<and> f z = Returns y)"
  by (cases x) auto

subsection \<open>Queues\<close>

lemma queue_from_cong:
  "(\<And>w. w \<in> set q \<Longrightarrow> waiters h' w = waiters h w) \<Longrightarrow>
     queue_from h' s p q = queue_from h s p q"
  by (induction q arbitrary: s p) auto

lemma queue_from_unique:
  "queue_from h s p q \<Longrightarrow> queue_from h s p q' \<Longrightarrow> q = q'"
proof (induction q arbitrary: s p q')
  case Nil
  then show ?case by (cases q') auto
next
  case (Cons w ws)
  then show ?case by (cases q') auto
qed

lemma cond_queue_Nil [simp]: "cond_queue p h [] \<longleftrightarrow> c_head (cond_at p h) = None"
  by (simp add: cond_queue_def)

text \<open>Linking a waiter in front.\<close>

lemma queue_from_frame:
  "queue_from h s p q \<Longrightarrow> \<forall>v\<in>set q. waiters h' v = waiters h v \<Longrightarrow> queue_from h' s p q"
  using queue_from_cong [of q h' h s p] by simp

lemma vlc_cond_wait_prepare_queue:
  assumes q: "cond_queue p h q" and fresh: "w \<notin> set q" and free: "\<not> c_lock (cond_at p h)"
  shows "\<exists>h'. vlc_cond_wait_prepare w p m h = Returns h' \<and> cond_queue p h' (w # q) \<and>
           w_value (waiters h' w) = 0 \<and> w_cond (waiters h' w) = p \<and> w_mutex (waiters h' w) = m \<and>
           notified h' = notified h \<and>
           \<not> mutex_at m h' \<and> \<not> c_lock (cond_at p h') \<and>
           (\<forall>v. v \<noteq> w \<longrightarrow> w_value (waiters h' v) = w_value (waiters h v) \<and>
                             w_cond (waiters h' v) = w_cond (waiters h v) \<and>
                             w_mutex (waiters h' v) = w_mutex (waiters h v))"
proof (cases q)
  case Nil
  with q have "c_head (cond_at p h) = None" by simp
  then show ?thesis
    using free Nil
    by (auto simp: vlc_cond_wait_prepare_def vlc_mutex_lock_def vlc_mutex_unlock_def Let_def
        cond_queue_def simp del: mutex_set.simps)
next
  case (Cons n ns)
  with q have hd: "c_head (cond_at p h) = Some n" and n: "w_pprev (waiters h n) = Head p"
    and rest: "queue_from h (Next n) (w_next (waiters h n)) ns" and d: "distinct (n # ns)"
    by (simp_all add: cond_queue_def)
  have nw: "n \<noteq> w" using fresh Cons by auto
  show ?thesis
    using free Cons hd n nw d fresh
    by (auto simp: vlc_cond_wait_prepare_def vlc_mutex_lock_def vlc_mutex_unlock_def Let_def
        cond_queue_def simp del: mutex_set.simps intro!: queue_from_frame [OF rest])
qed


lemma rw_state_signal_waiter [simp]:
  "rwlocks (vlc_cond_signal_waiter w h) = rwlocks h"
  by (simp add: vlc_cond_signal_waiter_def Let_def)

lemma cond_at_signal_waiter [simp]: "cond_at p (vlc_cond_signal_waiter w h) = cond_at p h"
  by (cases p) (simp_all add: vlc_cond_signal_waiter_def Let_def waiter_upd_def)

lemma mutexes_signal_waiter [simp]: "mutexes (vlc_cond_signal_waiter w h) = mutexes h"
  by (simp add: vlc_cond_signal_waiter_def Let_def)

lemma mutex_at_signal_waiter [simp]: "mutex_at m (vlc_cond_signal_waiter w h) = mutex_at m h"
  by (cases m) simp_all

lemma notified_signal_waiter [simp]:
  "notified (vlc_cond_signal_waiter w h) = notified h @ [w]"
  by (simp add: vlc_cond_signal_waiter_def Let_def)

lemma waiters_signal_waiter:
  "waiters (vlc_cond_signal_waiter w h) =
     (waiters h)(w := (waiters h w)\<lparr>w_pprev := Next w, w_next := None,
                                    w_value := w_value (waiters h w) + 1\<rparr>)"
  by (simp add: vlc_cond_signal_waiter_def Let_def)

lemma detached_signal_waiter: "detached (vlc_cond_signal_waiter w h) w"
  by (simp add: detached_def waiters_signal_waiter)

text \<open>Unlinking the head.\<close>

lemma vlc_cond_signal_queue:
  assumes q: "cond_queue p h (w # q)" and free: "\<not> c_lock (cond_at p h)"
  shows "\<exists>h'. vlc_cond_signal p h = Returns h' \<and> cond_queue p h' q \<and>
           notified h' = notified h @ [w] \<and> detached h' w \<and>
           w_value (waiters h' w) = w_value (waiters h w) + 1 \<and>
           (\<forall>v. v \<noteq> w \<longrightarrow> w_value (waiters h' v) = w_value (waiters h v) \<and>
                             w_cond (waiters h' v) = w_cond (waiters h v) \<and>
                             w_mutex (waiters h' v) = w_mutex (waiters h v)) \<and>
           (\<forall>v. v \<notin> set (w # q) \<longrightarrow> waiters h' v = waiters h v) \<and>
           \<not> c_lock (cond_at p h') \<and>
           (\<forall>m. m \<noteq> Cond_lock p \<longrightarrow> mutex_at m h' = mutex_at m h) \<and>
           (\<forall>l. rw_state (rwlocks h' l) = rw_state (rwlocks h l))"
proof -
  from q have hd: "c_head (cond_at p h) = Some w" and pp: "w_pprev (waiters h w) = Head p"
    and rest: "queue_from h (Next w) (w_next (waiters h w)) q" and d: "w \<notin> set q" "distinct q"
    by (simp_all add: cond_queue_def)
  show ?thesis
  proof (cases q)
    case Nil
    with rest have "w_next (waiters h w) = None" by simp
    then show ?thesis
      using free hd pp Nil
      by (auto simp: vlc_cond_signal_def vlc_mutex_lock_def vlc_mutex_unlock_def Let_def
          cond_queue_def detached_def waiters_signal_waiter
          simp del: mutex_set.simps)
  next
    case (Cons n ns)
    with rest have nx: "w_next (waiters h w) = Some n"
      and rest': "queue_from h (Next n) (w_next (waiters h n)) ns"
      by simp_all
    have nw: "n \<noteq> w" "n \<notin> set ns" "w \<notin> set ns" using d Cons by auto
    show ?thesis
      using free hd pp Cons nx nw d
      by (auto simp: vlc_cond_signal_def vlc_mutex_lock_def vlc_mutex_unlock_def Let_def
          cond_queue_def detached_def waiters_signal_waiter
          simp del: mutex_set.simps intro!: queue_from_frame [OF rest'])
  qed
qed


lemma cond_upd_id: "f (cond_at p h) = cond_at p h \<Longrightarrow> cond_upd p f h = h"
  by (cases p) simp_all

lemma cond_upd_cond_upd: "cond_upd p f (cond_upd p g h) = cond_upd p (f \<circ> g) h"
  by (cases p) simp_all

lemma waiter_upd_id: "f (waiters h w) = waiters h w \<Longrightarrow> waiter_upd w f h = h"
  by (simp add: waiter_upd_def)

lemma c_lock_update_id: "c_lock c = b \<Longrightarrow> c\<lparr>c_lock := b\<rparr> = c"
  by (cases c) simp

lemma rw_mutex_update_id: "rw_mutex r = b \<Longrightarrow> r\<lparr>rw_mutex := b\<rparr> = r"
  by (cases r) simp

lemma mutex_set_free_id: "\<not> mutex_at m h \<Longrightarrow> mutex_set m False h = h"
  by (cases m) (simp_all add: cond_upd_id c_lock_update_id rw_mutex_update_id fun_upd_idem)

lemma mutex_set_twice: "mutex_set m b (mutex_set m b' h) = mutex_set m b h"
  by (cases m) (simp_all add: cond_upd_cond_upd comp_def)

lemma unlock_lock_id: "\<not> mutex_at m h \<Longrightarrow> mutex_set m False (mutex_set m True h) = h"
  by (simp add: mutex_set_twice mutex_set_free_id)

lemma vlc_cond_signal_empty:
  assumes "c_head (cond_at p h) = None" "\<not> c_lock (cond_at p h)"
  shows "vlc_cond_signal p h = Returns h"
proof -
  have "\<not> mutex_at (Cond_lock p) h" using assms(2) by simp
  from unlock_lock_id [OF this] show ?thesis
    using assms
    by (simp add: vlc_cond_signal_def vlc_mutex_lock_def vlc_mutex_unlock_def
        del: mutex_set.simps)
qed

text \<open>The unlink of a detached waiter changes nothing.\<close>

lemma vlc_cond_wait_finish_detached:
  assumes "detached h w" "\<not> c_lock (cond_at p h)"
  shows "vlc_cond_wait_finish w p m h = vlc_mutex_lock m h"
proof -
  have free: "\<not> mutex_at (Cond_lock p) h" using assms(2) by simp
  let ?h = "mutex_set (Cond_lock p) True h"
  have "waiters ?h w = waiters h w" by simp
  with assms(1) have nx: "w_next (waiters ?h w) = None" and pp: "w_pprev (waiters ?h w) = Next w"
    by (simp_all add: detached_def)
  have "(waiters ?h w)\<lparr>w_next := None\<rparr> = waiters ?h w"
    using nx by (cases "waiters ?h w") simp
  then have "slot_store (Next w) None ?h = ?h"
    by (simp add: waiter_upd_id del: mutex_set.simps)
  then show ?thesis
    using free nx pp unlock_lock_id [OF free]
    by (simp add: vlc_cond_wait_finish_def vlc_mutex_lock_def vlc_mutex_unlock_def
        del: mutex_set.simps)
qed

text \<open>The loop of the broadcast on a well-formed list.\<close>

lemma fold_signal_waiter_frame [simp]:
  "cond_at p (fold vlc_cond_signal_waiter q h) = cond_at p h"
  "mutex_at m (fold vlc_cond_signal_waiter q h) = mutex_at m h"
  "rwlocks (fold vlc_cond_signal_waiter q h) = rwlocks h"
  "notified (fold vlc_cond_signal_waiter q h) = notified h @ q"
  by (induction q arbitrary: h) simp_all

lemma fold_signal_waiter_other:
  "w \<notin> set q \<Longrightarrow> waiters (fold vlc_cond_signal_waiter q h) w = waiters h w"
  by (induction q arbitrary: h) (simp_all add: waiters_signal_waiter)

lemma fold_signal_waiter_woken:
  "w \<in> set q \<Longrightarrow> distinct q \<Longrightarrow>
     waiters (fold vlc_cond_signal_waiter q h) w =
       (waiters h w)\<lparr>w_pprev := Next w, w_next := None, w_value := w_value (waiters h w) + 1\<rparr>"
proof (induction q arbitrary: h)
  case Nil
  then show ?case by simp
next
  case (Cons a q)
  show ?case
  proof (cases "w = a")
    case True
    with Cons.prems have "w \<notin> set q" by simp
    then show ?thesis
      using True by (simp add: fold_signal_waiter_other waiters_signal_waiter)
  next
    case False
    with Cons show ?thesis by (simp add: waiters_signal_waiter)
  qed
qed

lemma broadcast_loop_queue:
  "queue_from h s p q \<Longrightarrow> distinct q \<Longrightarrow>
     broadcast_loop (p, h) = Some (fold vlc_cond_signal_waiter q h)"
proof (induction q arbitrary: h s p)
  case Nil
  then show ?case by (simp add: broadcast_loop.simps)
next
  case (Cons w ws)
  then have p: "p = Some w" and rest: "queue_from h (Next w) (w_next (waiters h w)) ws"
    and d: "w \<notin> set ws" "distinct ws"
    by simp_all
  have "queue_from (vlc_cond_signal_waiter w h) (Next w) (w_next (waiters h w)) ws"
    using d by (auto intro!: queue_from_frame [OF rest] simp: waiters_signal_waiter)
  from Cons.IH [OF this d(2)] show ?case
    using p by (subst broadcast_loop.simps) (simp add: broadcast_iter_def)
qed

lemma vlc_cond_broadcast_queue:
  assumes q: "cond_queue p h q" and free: "\<not> c_lock (cond_at p h)"
  shows "\<exists>h'. vlc_cond_broadcast p h = Returns h' \<and> cond_queue p h' [] \<and>
           notified h' = notified h @ q \<and>
           (\<forall>w\<in>set q. waiters h' w =
              (waiters h w)\<lparr>w_pprev := Next w, w_next := None,
                             w_value := w_value (waiters h w) + 1\<rparr>) \<and>
           (\<forall>w. w \<notin> set q \<longrightarrow> waiters h' w = waiters h w) \<and>
           \<not> c_lock (cond_at p h') \<and>
           (\<forall>m. m \<noteq> Cond_lock p \<longrightarrow> mutex_at m h' = mutex_at m h) \<and>
           (\<forall>l. rw_state (rwlocks h' l) = rw_state (rwlocks h l))"
proof -
  let ?h0 = "mutex_set (Cond_lock p) True h"
  let ?h1 = "cond_upd p (\<lambda>c. c\<lparr>c_head := None\<rparr>) ?h0"
  from q have "queue_from ?h1 (Head p) (c_head (cond_at p h)) q" and d: "distinct q"
    by (auto simp: cond_queue_def intro: queue_from_frame simp del: mutex_set.simps)
  then have loop: "broadcast_loop (c_head (cond_at p h), ?h1) =
      Some (fold vlc_cond_signal_waiter q ?h1)"
    by (rule broadcast_loop_queue)
  show ?thesis
    using free d
    by (auto simp: vlc_cond_broadcast_def vlc_mutex_lock_def vlc_mutex_unlock_def Let_def loop
        fold_signal_waiter_woken fold_signal_waiter_other
        simp del: mutex_set.simps)
qed

subsection \<open>Histories\<close>

lemma next_call_assoc:
  "next_call (next_call x f) g = next_call x (\<lambda>h. next_call (f h) g)"
  by (cases x) simp_all

lemma run_calls_append: "run_calls (xs @ ys) h = next_call (run_calls xs h) (run_calls ys)"
proof (induction xs arbitrary: h)
  case Nil
  show ?case by simp
next
  case (Cons a xs)
  then show ?case by (cases "exec a h") simp_all
qed

lemma queue_from_mutex_set: "queue_from (mutex_set m b h) s p q = queue_from h s p q"
  by (rule queue_from_cong) simp

lemma cond_queue_mutex_set:
  "cond_queue p (mutex_set m b h) q = cond_queue p h q"
  by (simp add: cond_queue_def queue_from_mutex_set del: mutex_set.simps)

lemma queue_up_queue:
  assumes "cond_queue p h q" "\<not> c_lock (cond_at p h)" "\<not> mutex_at m h" "m \<noteq> Cond_lock p"
    "distinct ws" "set ws \<inter> set q = {}"
  shows "\<exists>h'. run_calls (queue_up p m ws) h = Returns h' \<and> cond_queue p h' (rev ws @ q) \<and>
           \<not> c_lock (cond_at p h') \<and> \<not> mutex_at m h' \<and> notified h' = notified h \<and>
           (\<forall>w\<in>set ws. w_value (waiters h' w) = 0 \<and> w_cond (waiters h' w) = p \<and>
                        w_mutex (waiters h' w) = m) \<and>
           (\<forall>v. v \<notin> set ws \<longrightarrow> w_value (waiters h' v) = w_value (waiters h v) \<and>
                               w_cond (waiters h' v) = w_cond (waiters h v) \<and>
                               w_mutex (waiters h' v) = w_mutex (waiters h v))"
  using assms
proof (induction ws arbitrary: h q)
  case Nil
  then show ?case by (simp add: queue_up_def)
next
  case (Cons w ws)
  let ?h1 = "mutex_set m True h"
  have lock: "vlc_mutex_lock m h = Returns ?h1"
    using Cons.prems(3) by (simp add: vlc_mutex_lock_def)
  have q1: "cond_queue p ?h1 q" using Cons.prems(1) by (simp add: cond_queue_mutex_set)
  have free1: "\<not> c_lock (cond_at p ?h1)" using Cons.prems(2,4) by (auto simp del: mutex_set.simps)
  have fresh: "w \<notin> set q" using Cons.prems(6) by simp
  from vlc_cond_wait_prepare_queue [OF q1 fresh free1, of m]
  obtain h2 where prep: "vlc_cond_wait_prepare w p m ?h1 = Returns h2"
    and q2: "cond_queue p h2 (w # q)"
    and w2: "w_value (waiters h2 w) = 0" "w_cond (waiters h2 w) = p" "w_mutex (waiters h2 w) = m"
    and n2: "notified h2 = notified ?h1"
    and free2: "\<not> mutex_at m h2" "\<not> c_lock (cond_at p h2)"
    and frame2: "\<And>v. v \<noteq> w \<Longrightarrow> w_value (waiters h2 v) = w_value (waiters ?h1 v) \<and>
                             w_cond (waiters h2 v) = w_cond (waiters ?h1 v) \<and>
                             w_mutex (waiters h2 v) = w_mutex (waiters ?h1 v)"
    by blast
  have d: "distinct ws" "set ws \<inter> set (w # q) = {}"
    using Cons.prems(5,6) by auto
  from Cons.IH [OF q2 free2(2) free2(1) Cons.prems(4) d]
  obtain h' where run: "run_calls (queue_up p m ws) h2 = Returns h'"
    and q': "cond_queue p h' (rev ws @ w # q)"
    and free': "\<not> c_lock (cond_at p h')" "\<not> mutex_at m h'"
    and n': "notified h' = notified h2"
    and ws': "\<forall>v\<in>set ws. w_value (waiters h' v) = 0 \<and> w_cond (waiters h' v) = p \<and>
                        w_mutex (waiters h' v) = m"
    and frame': "\<And>v. v \<notin> set ws \<Longrightarrow> w_value (waiters h' v) = w_value (waiters h2 v) \<and>
                               w_cond (waiters h' v) = w_cond (waiters h2 v) \<and>
                               w_mutex (waiters h' v) = w_mutex (waiters h2 v)"
    by blast
  have wnot: "w \<notin> set ws" using Cons.prems(5) by simp
  have "run_calls (queue_up p m (w # ws)) h = Returns h'"
    using lock prep run by (simp add: queue_up_def vlc_cond_wait_def)
  moreover have "w_value (waiters h' w) = 0 \<and> w_cond (waiters h' w) = p \<and>
      w_mutex (waiters h' w) = m"
    using frame' [OF wnot] w2 by simp
  moreover have "w_value (waiters h' v) = w_value (waiters h v) \<and>
      w_cond (waiters h' v) = w_cond (waiters h v) \<and>
      w_mutex (waiters h' v) = w_mutex (waiters h v)" if "v \<notin> set (w # ws)" for v
    using that frame' [of v] frame2 [of v] by (simp del: mutex_set.simps)
  ultimately show ?case
    using q' free' n' n2 ws' by (simp del: mutex_set.simps)
qed


lemma signals_queue:
  assumes "cond_queue p h q" "\<not> c_lock (cond_at p h)" "k \<le> length q"
  shows "\<exists>h'. run_calls (replicate k (Cond_signal p)) h = Returns h' \<and>
           cond_queue p h' (drop k q) \<and> \<not> c_lock (cond_at p h') \<and>
           notified h' = notified h @ take k q \<and>
           (\<forall>w\<in>set (take k q). w_value (waiters h' w) = w_value (waiters h w) + 1 \<and>
                                 detached h' w) \<and>
           (\<forall>v. v \<notin> set (take k q) \<longrightarrow> w_value (waiters h' v) = w_value (waiters h v)) \<and>
           (\<forall>v. v \<notin> set q \<longrightarrow> waiters h' v = waiters h v)"
  using assms
proof (induction k arbitrary: h q)
  case 0
  then show ?case by simp
next
  case (Suc k)
  then obtain w q' where q: "q = w # q'" by (cases q) auto
  have d: "w \<notin> set q'" "distinct q'"
    using Suc.prems(1) q by (simp_all add: cond_queue_def)
  from vlc_cond_signal_queue [OF Suc.prems(1) [unfolded q] Suc.prems(2)]
  obtain h1 where sig: "vlc_cond_signal p h = Returns h1"
    and q1: "cond_queue p h1 q'"
    and n1: "notified h1 = notified h @ [w]"
    and w1: "detached h1 w" "w_value (waiters h1 w) = w_value (waiters h w) + 1"
    and v1: "\<And>v. v \<noteq> w \<Longrightarrow> w_value (waiters h1 v) = w_value (waiters h v)"
    and frame1: "\<And>v. v \<notin> set (w # q') \<Longrightarrow> waiters h1 v = waiters h v"
    and free1: "\<not> c_lock (cond_at p h1)"
    by blast
  have k: "k \<le> length q'" using Suc.prems(3) q by simp
  from Suc.IH [OF q1 free1 k]
  obtain h' where run: "run_calls (replicate k (Cond_signal p)) h1 = Returns h'"
    and q': "cond_queue p h' (drop k q')"
    and free': "\<not> c_lock (cond_at p h')"
    and n': "notified h' = notified h1 @ take k q'"
    and woken': "\<forall>v\<in>set (take k q'). w_value (waiters h' v) = w_value (waiters h1 v) + 1 \<and>
                                  detached h' v"
    and v': "\<And>v. v \<notin> set (take k q') \<Longrightarrow> w_value (waiters h' v) = w_value (waiters h1 v)"
    and frame': "\<And>v. v \<notin> set q' \<Longrightarrow> waiters h' v = waiters h1 v"
    by blast
  have wk: "w \<notin> set (take k q')"
    using d(1) by (meson in_set_takeD)
  have "run_calls (replicate (Suc k) (Cond_signal p)) h = Returns h'"
    using sig run by simp
  moreover have "w_value (waiters h' w) = w_value (waiters h w) + 1 \<and> detached h' w"
    using frame' [OF d(1)] w1 by (simp add: detached_def)
  moreover have "w_value (waiters h' v) = w_value (waiters h v) + 1 \<and> detached h' v"
    if "v \<in> set (take k q')" for v
  proof -
    from that have "v \<noteq> w" using wk by auto
    with woken' that v1 show ?thesis by simp
  qed
  moreover have "w_value (waiters h' v) = w_value (waiters h v)"
    if "v \<notin> set (take (Suc k) q)" for v
    using that v' [of v] v1 [of v] q by simp
  moreover have "waiters h' v = waiters h v" if "v \<notin> set q" for v
    using that frame' [of v] frame1 [of v] q by simp
  ultimately show ?case
    using q' free' n' n1 q by simp
qed



text \<open>
  C1, as amended. On a condition variable with an empty queue, let the threads \<open>ws\<close> call
  \<open>vlc_cond_wait\<close> in this order, each holding the mutex, and let \<open>k\<close> calls of
  \<open>vlc_cond_signal\<close> follow. Every call returns, and the \<open>k\<close> waiters notified are, in this
  order, the last \<open>k\<close> of \<open>ws\<close> taken backwards: each signal wakes the waiter queued last
  among those that remain, so \<open>N\<close> signals wake \<open>tN..t1\<close>. The waiters notified have the
  value 1 in their cell, the others 0, and the others remain queued, the last queued at the
  head.
\<close>

theorem vlc_cond_signal_wakes_last_queued:
  assumes "c_head (cond_at cond h) = None" "\<not> c_lock (cond_at cond h)" "\<not> mutex_at mutex h"
    "mutex \<noteq> Cond_lock cond" "distinct ws" "k \<le> length ws"
  shows "\<exists>h'. run_calls (queue_up cond mutex ws @ replicate k (Cond_signal cond)) h = Returns h' \<and>
           notified h' = notified h @ take k (rev ws) \<and>
           cond_queue cond h' (drop k (rev ws)) \<and>
           (\<forall>w\<in>set ws. w_value (waiters h' w) = (if w \<in> set (take k (rev ws)) then 1 else 0))"
proof -
  have empty: "cond_queue cond h []"
    using assms(1) by simp
  from queue_up_queue [OF empty assms(2,3,4,5)]
  obtain h1 where run1: "run_calls (queue_up cond mutex ws) h = Returns h1"
    and q1: "cond_queue cond h1 (rev ws)"
    and free1: "\<not> c_lock (cond_at cond h1)"
    and n1: "notified h1 = notified h"
    and v1: "\<forall>w\<in>set ws. w_value (waiters h1 w) = 0"
    by auto
  have k: "k \<le> length (rev ws)" using assms(6) by simp
  from signals_queue [OF q1 free1 k]
  obtain h' where run2: "run_calls (replicate k (Cond_signal cond)) h1 = Returns h'"
    and q': "cond_queue cond h' (drop k (rev ws))"
    and n': "notified h' = notified h1 @ take k (rev ws)"
    and woken: "\<forall>w\<in>set (take k (rev ws)). w_value (waiters h' w) = w_value (waiters h1 w) + 1"
    and asleep: "\<And>v. v \<notin> set (take k (rev ws)) \<Longrightarrow>
                   w_value (waiters h' v) = w_value (waiters h1 v)"
    by blast
  have "run_calls (queue_up cond mutex ws @ replicate k (Cond_signal cond)) h = Returns h'"
    using run1 run2 by (simp add: run_calls_append)
  moreover have "w_value (waiters h' w) = (if w \<in> set (take k (rev ws)) then 1 else 0)"
    if "w \<in> set ws" for w
    using that v1 woken asleep [of w] by auto
  ultimately show ?thesis
    using q' n' n1 by auto
qed

theorem vlc_cond_signal_wakes_last_queued_witness:
  "\<exists>h'. run_calls (queue_up (Cond 0) (Mutex 0) [1, 2, 3] @ replicate 2 (Cond_signal (Cond 0)))
           heap_init = Returns h' \<and>
         notified h' = [3, 2] \<and> cond_queue (Cond 0) h' [1] \<and>
         w_value (waiters h' 1) = 0 \<and> w_value (waiters h' 2) = 1 \<and> w_value (waiters h' 3) = 1"
proof -
  have idle: "c_head (cond_at (Cond 0) heap_init) = None" "\<not> c_lock (cond_at (Cond 0) heap_init)"
    "\<not> mutex_at (Mutex 0) heap_init" "Mutex 0 \<noteq> Cond_lock (Cond 0)"
    by (simp_all add: heap_init_def)
  have ws: "distinct [1, 2, 3 :: nat]" "2 \<le> length [1, 2, 3 :: nat]"
    by simp_all
  from vlc_cond_signal_wakes_last_queued [OF idle ws]
  show ?thesis
    by (simp add: heap_init_def)
qed

text \<open>
  C1, as stated, fails: with waiters 1 and 2 queued in this order, the first signal
  notifies waiter 2, and two signals notify 2 and then 1.
\<close>

theorem vlc_cond_signal_fifo_counterexample:
  "map_outcome notified
     (run_calls (queue_up (Cond 0) (Mutex 0) [1, 2] @ [Cond_signal (Cond 0)]) heap_init) =
     Returns [2] \<and>
   map_outcome notified
     (run_calls (queue_up (Cond 0) (Mutex 0) [1, 2] @ [Cond_signal (Cond 0), Cond_signal (Cond 0)])
        heap_init) =
     Returns [2, 1]"
  by (simp add: queue_up_def heap_init_def vlc_cond_wait_def vlc_cond_wait_prepare_def
      vlc_mutex_lock_def vlc_mutex_unlock_def vlc_cond_signal_def Let_def
      vlc_cond_signal_waiter_def waiter_upd_def)

subsection \<open>Calls that find the lock of the condition variable held\<close>

lemma vlc_cond_signal_blocked: "c_lock (cond_at p h) \<Longrightarrow> vlc_cond_signal p h = Blocked h"
  by (simp add: vlc_cond_signal_def vlc_mutex_lock_def)

lemma vlc_cond_broadcast_blocked: "c_lock (cond_at p h) \<Longrightarrow> vlc_cond_broadcast p h = Blocked h"
  by (simp add: vlc_cond_broadcast_def vlc_mutex_lock_def)

lemma vlc_cond_wait_finish_blocked:
  "c_lock (cond_at p h) \<Longrightarrow> vlc_cond_wait_finish w p m h = Blocked h"
  by (simp add: vlc_cond_wait_finish_def vlc_mutex_lock_def)

lemma vlc_cond_wait_prepare_blocked:
  "c_lock (cond_at p h) \<Longrightarrow> \<exists>h'. vlc_cond_wait_prepare w p m h = Blocked h'"
  by (simp add: vlc_cond_wait_prepare_def vlc_mutex_lock_def)

subsection \<open>The iterations of the broadcast\<close>

lemma broadcast_steps_cond_at:
  "cond_at p (snd (broadcast_steps n s)) = cond_at p (snd s)"
  by (induction n arbitrary: s) (auto simp: broadcast_iter_def split: option.splits)

lemma broadcast_loop_steps: "broadcast_loop (broadcast_steps n s) = broadcast_loop s"
proof (induction n arbitrary: s)
  case 0
  show ?case by simp
next
  case (Suc n)
  show ?case
  proof (cases "fst s")
    case None
    then show ?thesis by simp
  next
    case (Some w)
    then have "broadcast_loop s = broadcast_loop (broadcast_iter w (snd s))"
      by (subst broadcast_loop.simps) simp
    with Some Suc show ?thesis by simp
  qed
qed

lemma mutex_set_held_id: "mutex_at m h \<Longrightarrow> mutex_set m True h = h"
  by (cases m) (simp_all add: cond_upd_id c_lock_update_id rw_mutex_update_id fun_upd_idem)

lemma wake_up_all:
  assumes "\<forall>w\<in>set ws. \<forall>p. vlc_cond_wait_resume p w h' = vlc_mutex_lock (w_mutex (waiters h w)) h'"
    and "\<forall>w\<in>set ws. \<not> mutex_at (w_mutex (waiters h w)) h'"
  shows "run_calls (wake_up h ws) h' = Returns h'"
  using assms
proof (induction ws)
  case Nil
  show ?case by (simp add: wake_up_def)
next
  case (Cons w ws)
  let ?m = "w_mutex (waiters h w)"
  have "vlc_cond_wait_resume Sleeps w h' = Returns (mutex_set ?m True h')"
    using Cons.prems by (simp add: vlc_mutex_lock_def)
  moreover have "vlc_mutex_unlock ?m (mutex_set ?m True h') = h'"
    using Cons.prems(2) by (simp add: vlc_mutex_unlock_def unlock_lock_id)
  moreover have "run_calls (wake_up h ws) h' = Returns h'"
    using Cons by simp
  ultimately show ?case
    by (simp add: wake_up_def)
qed

text \<open>
  C4. Let \<open>q\<close> be the queue of a condition variable whose lock is free, the waiters in it
  asleep on it (cell 0). Then \<open>vlc_cond_broadcast\<close> returns, the queue is empty and the
  lock free afterwards, every waiter of \<open>q\<close> has been notified once and has 1 in its cell
  and its linkage reset, and its wait goes on from the park to take the caller's mutex,
  which is all that remains of the call; so the waits of any of the waiters return one
  after the other when their mutexes are free, leaving the memory as the broadcast left
  it. At every iteration of the loop the lock is held and the head is already empty, a
  signal made at that moment blocks at the lock, and the loop goes on to the memory that
  the broadcast returns.
\<close>

theorem vlc_cond_broadcast_wakes_all:
  assumes "cond_queue cond h q" "\<not> c_lock (cond_at cond h)"
    and "\<forall>w\<in>set q. w_value (waiters h w) = 0 \<and> w_cond (waiters h w) = cond"
  shows "\<exists>h'. vlc_cond_broadcast cond h = Returns h' \<and>
           cond_queue cond h' [] \<and> \<not> c_lock (cond_at cond h') \<and>
           notified h' = notified h @ q \<and>
           (\<forall>w\<in>set q. w_value (waiters h' w) = 1 \<and> detached h' w \<and>
              (\<forall>p. vlc_cond_wait_resume p w h' = vlc_mutex_lock (w_mutex (waiters h w)) h')) \<and>
           (\<forall>ws. set ws \<subseteq> set q \<and> (\<forall>w\<in>set ws. \<not> mutex_at (w_mutex (waiters h w)) h') \<longrightarrow>
              run_calls (wake_up h ws) h' = Returns h') \<and>
           (\<forall>n. c_lock (cond_at cond (snd (broadcast_steps n (broadcast_start cond h)))) \<and>
                c_head (cond_at cond (snd (broadcast_steps n (broadcast_start cond h)))) = None \<and>
                vlc_cond_signal cond (snd (broadcast_steps n (broadcast_start cond h))) =
                  Blocked (snd (broadcast_steps n (broadcast_start cond h))) \<and>
                (\<exists>h2. broadcast_loop (broadcast_steps n (broadcast_start cond h)) = Some h2 \<and>
                      h' = vlc_mutex_unlock (Cond_lock cond) h2))"
proof -
  from vlc_cond_broadcast_queue [OF assms(1,2)]
  obtain h' where ret: "vlc_cond_broadcast cond h = Returns h'"
    and q': "cond_queue cond h' []" and free': "\<not> c_lock (cond_at cond h')"
    and n': "notified h' = notified h @ q"
    and woken: "\<forall>w\<in>set q. waiters h' w =
        (waiters h w)\<lparr>w_pprev := Next w, w_next := None, w_value := w_value (waiters h w) + 1\<rparr>"
    by blast
  have each: "w_value (waiters h' w) = 1 \<and> detached h' w \<and>
      (\<forall>p. vlc_cond_wait_resume p w h' = vlc_mutex_lock (w_mutex (waiters h w)) h')"
    if w: "w \<in> set q" for w
  proof -
    from woken w assms(3) have val: "w_value (waiters h' w) = 1" and det: "detached h' w"
      and c: "w_cond (waiters h' w) = cond" and m: "w_mutex (waiters h' w) = w_mutex (waiters h w)"
      by (simp_all add: detached_def)
    have "vlc_cond_wait_resume p w h' = vlc_mutex_lock (w_mutex (waiters h w)) h'" for p
      using val c m vlc_cond_wait_finish_detached [OF det, of cond] free'
      by (simp add: vlc_cond_wait_resume_def vlc_atomic_wait_def vlc_cond_wait_cleanup_def
          split: park.splits)
    with val det show ?thesis by simp
  qed
  have all: "run_calls (wake_up h ws) h' = Returns h'"
    if "set ws \<subseteq> set q" "\<forall>w\<in>set ws. \<not> mutex_at (w_mutex (waiters h w)) h'" for ws
    using that each by (intro wake_up_all) auto
  let ?s = "broadcast_start cond h"
  have start: "c_lock (cond_at cond (snd ?s))" "c_head (cond_at cond (snd ?s)) = None"
    by (simp_all add: broadcast_start_def del: mutex_set.simps)
  obtain h2 where loop: "broadcast_loop ?s = Some h2" and h': "h' = vlc_mutex_unlock (Cond_lock cond) h2"
    using ret assms(2)
    by (auto simp: vlc_cond_broadcast_def vlc_mutex_lock_def broadcast_start_def Let_def
        split: option.splits simp del: mutex_set.simps)
  have during: "c_lock (cond_at cond (snd (broadcast_steps n ?s))) \<and>
      c_head (cond_at cond (snd (broadcast_steps n ?s))) = None \<and>
      vlc_cond_signal cond (snd (broadcast_steps n ?s)) = Blocked (snd (broadcast_steps n ?s)) \<and>
      (\<exists>h2. broadcast_loop (broadcast_steps n ?s) = Some h2 \<and>
            h' = vlc_mutex_unlock (Cond_lock cond) h2)" for n
    using start loop h'
    by (simp add: broadcast_steps_cond_at broadcast_loop_steps vlc_cond_signal_blocked)
  from ret q' free' n' each all during show ?thesis
    by blast
qed


lemma queued_idle:
  "\<exists>h. run_calls (queue_up (Cond 0) (Mutex 0) [1, 2]) heap_init = Returns h \<and>
       cond_queue (Cond 0) h [2, 1] \<and> \<not> c_lock (cond_at (Cond 0) h) \<and>
       \<not> mutex_at (Mutex 0) h \<and> notified h = [] \<and>
       (\<forall>w\<in>set [1, 2]. w_value (waiters h w) = 0 \<and> w_cond (waiters h w) = Cond 0 \<and>
                         w_mutex (waiters h w) = Mutex 0)"
proof -
  have idle: "cond_queue (Cond 0) heap_init []" "\<not> c_lock (cond_at (Cond 0) heap_init)"
    "\<not> mutex_at (Mutex 0) heap_init" "Mutex 0 \<noteq> Cond_lock (Cond 0)"
    by (simp_all add: heap_init_def)
  have ws: "distinct [1, 2 :: nat]" "set [1, 2 :: nat] \<inter> set [] = {}"
    by simp_all
  from queue_up_queue [OF idle ws] show ?thesis
    by (auto simp: heap_init_def)
qed

theorem vlc_cond_broadcast_wakes_all_witness:
  "\<exists>h h'. run_calls (queue_up (Cond 0) (Mutex 0) [1, 2]) heap_init = Returns h \<and>
          vlc_cond_broadcast (Cond 0) h = Returns h' \<and>
          cond_queue (Cond 0) h' [] \<and> notified h' = [2, 1] \<and>
          w_value (waiters h' 1) = 1 \<and> w_value (waiters h' 2) = 1 \<and>
          run_calls (wake_up h [1, 2]) h' = Returns h'"
proof -
  from queued_idle obtain h
    where run: "run_calls (queue_up (Cond 0) (Mutex 0) [1, 2]) heap_init = Returns h"
      and q: "cond_queue (Cond 0) h [2, 1]" and free: "\<not> c_lock (cond_at (Cond 0) h)"
      and m: "\<not> mutex_at (Mutex 0) h" and n: "notified h = []"
      and ws: "\<forall>w\<in>set [1, 2]. w_value (waiters h w) = 0 \<and> w_cond (waiters h w) = Cond 0 \<and>
                                w_mutex (waiters h w) = Mutex 0"
    by blast
  have asleep: "\<forall>w\<in>set [2, 1]. w_value (waiters h w) = 0 \<and> w_cond (waiters h w) = Cond 0"
    using ws by simp
  from vlc_cond_broadcast_wakes_all [OF q free asleep]
  obtain h' where ret: "vlc_cond_broadcast (Cond 0) h = Returns h'"
    and q': "cond_queue (Cond 0) h' []" and n': "notified h' = notified h @ [2, 1]"
    and each: "\<forall>w\<in>set [2, 1]. w_value (waiters h' w) = 1"
    and all: "\<forall>ws. set ws \<subseteq> set [2, 1] \<and> (\<forall>w\<in>set ws. \<not> mutex_at (w_mutex (waiters h w)) h') \<longrightarrow>
                run_calls (wake_up h ws) h' = Returns h'"
    by blast
  have "mutex_at (Mutex 0) h' = mutex_at (Mutex 0) h"
    using vlc_cond_broadcast_queue [OF q free] ret by auto
  with m ws have "\<forall>w\<in>set [1, 2]. \<not> mutex_at (w_mutex (waiters h w)) h'"
    by simp
  with all have "run_calls (wake_up h [1, 2]) h' = Returns h'"
    by auto
  with run ret q' n' n each show ?thesis
    by auto
qed

text \<open>
  C10. \<open>vlc_cond_signal_waiter\<close> leaves the waiter with \<open>pprev\<close> pointing at its own \<open>next\<close>
  and \<open>next\<close> null. So does \<open>vlc_cond_signal\<close> for the head of the queue and
  \<open>vlc_cond_broadcast\<close> for every waiter of the queue, and \<open>vlc_cond_wait_finish\<close> of such
  a waiter then does nothing but take the caller's mutex. In general, for a waiter with
  this linkage and a free lock, \<open>vlc_cond_wait_finish\<close> is \<open>vlc_mutex_lock\<close> of the caller's
  mutex: whether it returns or blocks on that mutex, all waiters are as before, and so is
  the head, and the queue, of every condition variable.
\<close>

theorem vlc_cond_wait_finish_no_op:
  "detached (vlc_cond_signal_waiter waiter h) waiter \<and>
   (cond_queue cond h (waiter # q) \<and> \<not> c_lock (cond_at cond h) \<longrightarrow>
      (\<exists>h'. vlc_cond_signal cond h = Returns h' \<and> detached h' waiter \<and>
            cond_queue cond h' q \<and>
            vlc_cond_wait_finish waiter cond mutex h' = vlc_mutex_lock mutex h')) \<and>
   (cond_queue cond h q \<and> waiter \<in> set q \<and> \<not> c_lock (cond_at cond h) \<longrightarrow>
      (\<exists>h'. vlc_cond_broadcast cond h = Returns h' \<and> detached h' waiter \<and>
            cond_queue cond h' [] \<and>
            vlc_cond_wait_finish waiter cond mutex h' = vlc_mutex_lock mutex h')) \<and>
   (detached h waiter \<and> \<not> c_lock (cond_at cond h) \<longrightarrow>
      vlc_cond_wait_finish waiter cond mutex h = vlc_mutex_lock mutex h \<and>
      (\<forall>h'. vlc_cond_wait_finish waiter cond mutex h = Returns h' \<or>
            vlc_cond_wait_finish waiter cond mutex h = Blocked h' \<longrightarrow>
            waiters h' = waiters h \<and>
            (\<forall>c. c_head (cond_at c h') = c_head (cond_at c h)) \<and>
            (\<forall>c q'. cond_queue c h' q' = cond_queue c h q')))"
proof -
  have reset: "detached (vlc_cond_signal_waiter waiter h) waiter"
    by (rule detached_signal_waiter)
  have signal: "\<exists>h'. vlc_cond_signal cond h = Returns h' \<and> detached h' waiter \<and>
      cond_queue cond h' q \<and>
      vlc_cond_wait_finish waiter cond mutex h' = vlc_mutex_lock mutex h'"
    if "cond_queue cond h (waiter # q)" "\<not> c_lock (cond_at cond h)"
  proof -
    from vlc_cond_signal_queue [OF that]
    obtain h' where "vlc_cond_signal cond h = Returns h'" "cond_queue cond h' q"
      "detached h' waiter" "\<not> c_lock (cond_at cond h')"
      by blast
    with vlc_cond_wait_finish_detached [of h' waiter cond mutex] show ?thesis
      by blast
  qed
  have broadcast: "\<exists>h'. vlc_cond_broadcast cond h = Returns h' \<and> detached h' waiter \<and>
      cond_queue cond h' [] \<and>
      vlc_cond_wait_finish waiter cond mutex h' = vlc_mutex_lock mutex h'"
    if "cond_queue cond h q" "waiter \<in> set q" "\<not> c_lock (cond_at cond h)"
  proof -
    from vlc_cond_broadcast_queue [OF that(1,3)]
    obtain h' where ret: "vlc_cond_broadcast cond h = Returns h'" and q': "cond_queue cond h' []"
      and woken: "\<forall>w\<in>set q. waiters h' w =
        (waiters h w)\<lparr>w_pprev := Next w, w_next := None, w_value := w_value (waiters h w) + 1\<rparr>"
      and free': "\<not> c_lock (cond_at cond h')"
      by blast
    from woken that(2) have "detached h' waiter"
      by (simp add: detached_def)
    with vlc_cond_wait_finish_detached [of h' waiter cond mutex] ret q' free' show ?thesis
      by blast
  qed
  have finish: "vlc_cond_wait_finish waiter cond mutex h = vlc_mutex_lock mutex h \<and>
      (\<forall>h'. vlc_cond_wait_finish waiter cond mutex h = Returns h' \<or>
            vlc_cond_wait_finish waiter cond mutex h = Blocked h' \<longrightarrow>
            waiters h' = waiters h \<and>
            (\<forall>c. c_head (cond_at c h') = c_head (cond_at c h)) \<and>
            (\<forall>c q'. cond_queue c h' q' = cond_queue c h q'))"
    if "detached h waiter" "\<not> c_lock (cond_at cond h)"
  proof -
    have eq: "vlc_cond_wait_finish waiter cond mutex h = vlc_mutex_lock mutex h"
      using that by (rule vlc_cond_wait_finish_detached)
    have "waiters h' = waiters h \<and> (\<forall>c. c_head (cond_at c h') = c_head (cond_at c h)) \<and>
        (\<forall>c q'. cond_queue c h' q' = cond_queue c h q')"
      if "vlc_mutex_lock mutex h = Returns h' \<or> vlc_mutex_lock mutex h = Blocked h'" for h'
    proof -
      from that have "h' = h \<or> h' = mutex_set mutex True h"
        by (auto simp: vlc_mutex_lock_def split: if_splits)
      then show ?thesis
        by (auto simp: cond_queue_mutex_set simp del: mutex_set.simps)
    qed
    with eq show ?thesis by simp
  qed
  from reset signal broadcast finish show ?thesis
    by blast
qed

theorem vlc_cond_wait_finish_no_op_witness:
  "\<exists>h h'. run_calls (queue_up (Cond 0) (Mutex 0) [1, 2]) heap_init = Returns h \<and>
          vlc_cond_signal (Cond 0) h = Returns h' \<and> detached h' 2 \<and>
          cond_queue (Cond 0) h' [1] \<and>
          vlc_cond_wait_finish 2 (Cond 0) (Mutex 0) h' = Returns (mutex_set (Mutex 0) True h') \<and>
          cond_queue (Cond 0) (mutex_set (Mutex 0) True h') [1]"
proof -
  from queued_idle obtain h
    where run: "run_calls (queue_up (Cond 0) (Mutex 0) [1, 2]) heap_init = Returns h"
      and q: "cond_queue (Cond 0) h [2, 1]" and free: "\<not> c_lock (cond_at (Cond 0) h)"
      and m: "\<not> mutex_at (Mutex 0) h"
    by blast
  from vlc_cond_wait_finish_no_op [of 2 h "Cond 0" "[1]" "Mutex 0"] q free
  obtain h' where sig: "vlc_cond_signal (Cond 0) h = Returns h'" and det: "detached h' 2"
    and q': "cond_queue (Cond 0) h' [1]"
    and fin: "vlc_cond_wait_finish 2 (Cond 0) (Mutex 0) h' = vlc_mutex_lock (Mutex 0) h'"
    by blast
  have "mutex_at (Mutex 0) h' = mutex_at (Mutex 0) h"
    using vlc_cond_signal_queue [OF q free] sig by auto
  with m fin have "vlc_cond_wait_finish 2 (Cond 0) (Mutex 0) h' = Returns (mutex_set (Mutex 0) True h')"
    by (simp add: vlc_mutex_lock_def)
  with run sig det q' show ?thesis
    by (auto simp: cond_queue_mutex_set simp del: mutex_set.simps)
qed

section \<open>Read/write locks\<close>

subsection \<open>The state word as a signed number\<close>

lemma sint_READER_MASK: "sint READER_MASK = 2 ^ 63 - 1"
  by (simp add: READER_MASK_def LONG_MAX_def)

lemma sint_WRITER_BIT: "sint WRITER_BIT = - (2 ^ 63)"
  by (simp add: WRITER_BIT_def LONG_MIN_def)

lemma sint_long_range: "- (2 ^ 63) \<le> sint (s :: long) \<and> sint s < 2 ^ 63"
  using sint_ge [of s] sint_lt [of s] by simp

lemma reader_overflow_iff: "sint READER_MASK \<le> sint (s :: long) \<longleftrightarrow> s = READER_MASK"
proof
  assume "sint READER_MASK \<le> sint s"
  with sint_long_range [of s] have "sint s = sint READER_MASK"
    by (simp add: sint_READER_MASK)
  then show "s = READER_MASK"
    by (simp add: signed_word_eqI)
next
  assume "s = READER_MASK"
  then show "sint READER_MASK \<le> sint s" by simp
qed

lemma sint_incr:
  assumes "0 \<le> sint (s :: long)" "s \<noteq> READER_MASK"
  shows "sint (s + 1) = sint s + 1"
proof -
  have "\<not> sint READER_MASK \<le> sint s"
    using assms(2) by (simp add: reader_overflow_iff)
  then have "sint s + 1 < 2 ^ 63"
    by (simp add: sint_READER_MASK)
  with assms(1) show ?thesis
    by (simp add: sint_word_ariths signed_take_bit_int_eq_self)
qed

lemma sint_decr:
  assumes "0 < sint (s :: long)"
  shows "sint (s - 1) = sint s - 1"
proof -
  have "sint s - 1 < 2 ^ 63" using sint_long_range [of s] by simp
  with assms show ?thesis
    by (simp add: sint_word_ariths signed_take_bit_int_eq_self)
qed

lemma sint_zero_iff: "sint (s :: long) = 0 \<longleftrightarrow> s = 0"
  by (metis signed_word_eqI sint_0)


subsection \<open>The state word in memory\<close>

lemma rw_state_state_upd [simp]:
  "rw_state (rwlocks (state_upd l f h) l') =
     (if l' = l then f (rw_state (rwlocks h l)) else rw_state (rwlocks h l'))"
  by (simp add: state_upd_def)

lemma rw_mutex_state_upd [simp]:
  "rw_mutex (rwlocks (state_upd l f h) l') = rw_mutex (rwlocks h l')"
  by (simp add: state_upd_def)

lemma cond_at_state_upd [simp]: "cond_at p (state_upd l f h) = cond_at p h"
  by (cases p) (simp_all add: state_upd_def)

lemma waiters_state_upd [simp]: "waiters (state_upd l f h) = waiters h"
  by (simp add: state_upd_def)

lemma notified_state_upd [simp]: "notified (state_upd l f h) = notified h"
  by (simp add: state_upd_def)

lemma mutexes_state_upd [simp]: "mutexes (state_upd l f h) = mutexes h"
  by (simp add: state_upd_def)

lemma mutex_at_state_upd [simp]: "mutex_at m (state_upd l f h) = mutex_at m h"
  by (cases m) simp_all

lemma queue_from_state_upd [simp]: "queue_from (state_upd l f h) s p q = queue_from h s p q"
  by (rule queue_from_cong) simp

lemma cond_queue_state_upd [simp]: "cond_queue p (state_upd l f h) q = cond_queue p h q"
  by (simp add: cond_queue_def)

lemma state_upd_id: "f (rw_state (rwlocks h l)) = rw_state (rwlocks h l) \<Longrightarrow> state_upd l f h = h"
  by (simp add: state_upd_def)

lemma state_upd_state_upd: "state_upd l f (state_upd l g h) = state_upd l (f \<circ> g) h"
  by (simp add: state_upd_def)

lemma mutex_set_state_upd:
  "mutex_set (Rwlock_mutex l) b (state_upd l f h) = state_upd l f (mutex_set (Rwlock_mutex l) b h)"
  by (cases "rwlocks h l") (simp add: state_upd_def)

lemma rw_state_slot_store [simp]:
  "rw_state (rwlocks (slot_store s v h) l) = rw_state (rwlocks h l)"
  by (cases s) simp_all

subsection \<open>Condition variables leave the state word alone\<close>

lemma keeps_state_and_then:
  assumes "keeps_state l h x" "\<And>h'. keeps_state l h' (f h')"
  shows "keeps_state l h (and_then x f)"
proof (cases x)
  case (Returns h1)
  with assms(1) assms(2) [of h1] show ?thesis
    by (cases "f h1") simp_all
qed (use assms(1) in simp_all)

lemma keeps_state_vlc_mutex_lock [simp]: "keeps_state l h (vlc_mutex_lock m h)"
  by (simp add: vlc_mutex_lock_def del: mutex_set.simps)

lemma keeps_state_trans:
  "rw_state (rwlocks h1 l) = rw_state (rwlocks h l) \<Longrightarrow> keeps_state l h1 x \<Longrightarrow> keeps_state l h x"
  by (cases x) simp_all

lemma keeps_state_signal [simp]: "keeps_state l h (vlc_cond_signal p h)"
  by (simp add: vlc_cond_signal_def vlc_mutex_lock_def vlc_mutex_unlock_def Let_def
      split: option.splits del: mutex_set.simps)


lemma broadcast_loop_rwlocks:
  assumes "broadcast_loop s = Some h'"
  shows "rwlocks h' = rwlocks (snd s)"
proof (rule broadcast_loop.raw_induct [where P = "\<lambda>s h'. rwlocks h' = rwlocks (snd s)", OF _ assms])
  fix loop s h'
  assume IH: "\<And>s h'. loop s = Some h' \<Longrightarrow> rwlocks h' = rwlocks (snd s)"
    and step: "(case fst s of None \<Rightarrow> Some (snd s)
                | Some waiter \<Rightarrow> loop (broadcast_iter waiter (snd s))) = Some h'"
  show "rwlocks h' = rwlocks (snd s)"
  proof (cases "fst s")
    case None
    with step show ?thesis by simp
  next
    case (Some w)
    with step have "loop (broadcast_iter w (snd s)) = Some h'" by simp
    from IH [OF this] show ?thesis by (simp add: broadcast_iter_def)
  qed
qed

lemma keeps_state_broadcast [simp]: "keeps_state l h (vlc_cond_broadcast p h)"
proof (cases "c_lock (cond_at p h)")
  case True
  then show ?thesis by (simp add: vlc_cond_broadcast_def vlc_mutex_lock_def)
next
  case False
  let ?s = "broadcast_start p h"
  show ?thesis
  proof (cases "broadcast_loop ?s")
    case None
    with False show ?thesis
      by (simp add: vlc_cond_broadcast_def vlc_mutex_lock_def broadcast_start_def Let_def
          del: mutex_set.simps)
  next
    case (Some h2)
    from broadcast_loop_rwlocks [OF this] have "rw_state (rwlocks h2 l) = rw_state (rwlocks h l)"
      by (simp add: broadcast_start_def del: mutex_set.simps)
    with False Some show ?thesis
      by (simp add: vlc_cond_broadcast_def vlc_mutex_lock_def vlc_mutex_unlock_def
          broadcast_start_def Let_def del: mutex_set.simps)
  qed
qed

lemma keeps_state_prepare [simp]: "keeps_state l h (vlc_cond_wait_prepare w p m h)"
  by (simp add: vlc_cond_wait_prepare_def vlc_mutex_lock_def vlc_mutex_unlock_def Let_def
      split: option.splits del: mutex_set.simps)

lemma keeps_state_finish [simp]: "keeps_state l h (vlc_cond_wait_finish w p m h)"
  by (simp add: vlc_cond_wait_finish_def vlc_mutex_lock_def vlc_mutex_unlock_def Let_def
      split: option.splits del: mutex_set.simps)

lemma keeps_state_wait [simp]: "keeps_state l h (vlc_cond_wait p m w h)"
  using keeps_state_prepare [of l h w p m]
  by (cases "vlc_cond_wait_prepare w p m h") (simp_all add: vlc_cond_wait_def)

lemma keeps_state_resume [simp]: "keeps_state l h (vlc_cond_wait_resume pk w h)"
  by (simp add: vlc_cond_wait_resume_def vlc_cond_wait_cleanup_def split: option.splits)


subsection \<open>The calls of the read/write lock and the state word\<close>

lemma vlc_cond_wait_not_Returns: "vlc_cond_wait p m w h \<noteq> Returns h'"
  by (cases "vlc_cond_wait_prepare w p m h") (simp_all add: vlc_cond_wait_def)

lemma rd_effect_wait:
  "keeps_state l h x \<Longrightarrow> \<forall>h'. x \<noteq> Returns h' \<Longrightarrow> rd_effect l (rw_state (rwlocks h l)) x"
  by (cases x) auto

lemma wr_effect_wait:
  "keeps_state l h x \<Longrightarrow> \<forall>h'. x \<noteq> Returns h' \<Longrightarrow> wr_effect l (rw_state (rwlocks h l)) x"
  by (cases x) auto

lemma rd_effect_vlc_cond_wait: "rd_effect l (rw_state (rwlocks h l)) (vlc_cond_wait p m w h)"
  by (rule rd_effect_wait) (simp_all add: vlc_cond_wait_not_Returns)

lemma wr_effect_vlc_cond_wait: "wr_effect l (rw_state (rwlocks h l)) (vlc_cond_wait p m w h)"
  by (rule wr_effect_wait) (simp_all add: vlc_cond_wait_not_Returns)

lemma rd_effect_loop: "rd_effect l (rw_state (rwlocks h l)) (rdlock_loop l w h)"
proof (cases "sint (rw_state (rwlocks h l)) < 0")
  case True
  show ?thesis
  proof (cases "rw_state (rwlocks h l) = WRITER_BIT")
    case False
    with True show ?thesis by (simp add: rdlock_loop_def)
  next
    case wr: True
    have "rdlock_loop l w h = vlc_cond_wait (Rwlock_wait l) (Rwlock_mutex l) w h"
      using True wr by (simp add: rdlock_loop_def)
    then show ?thesis by (simp only: rd_effect_vlc_cond_wait)
  qed
next
  case False
  then show ?thesis
    by (simp add: rdlock_loop_def vlc_mutex_unlock_def reader_overflow_iff
        del: mutex_set.simps)
qed

lemma wr_effect_loop: "wr_effect l (rw_state (rwlocks h l)) (wrlock_loop l w h)"
proof (cases "rw_state (rwlocks h l) = 0")
  case False
  then have "wrlock_loop l w h = vlc_cond_wait (Rwlock_wait l) (Rwlock_mutex l) w h"
    by (simp add: wrlock_loop_def)
  then show ?thesis by (simp only: wr_effect_vlc_cond_wait)
next
  case True
  then show ?thesis
    by (simp add: wrlock_loop_def vlc_mutex_unlock_def del: mutex_set.simps)
qed

lemma rd_effect_rdlock: "rd_effect l (rw_state (rwlocks h l)) (vlc_rwlock_rdlock l w h)"
  using rd_effect_loop [of l "mutex_set (Rwlock_mutex l) True h" w]
  by (simp add: vlc_rwlock_rdlock_def vlc_mutex_lock_def del: mutex_set.simps)

lemma wr_effect_wrlock: "wr_effect l (rw_state (rwlocks h l)) (vlc_rwlock_wrlock l w h)"
  using wr_effect_loop [of l "mutex_set (Rwlock_mutex l) True h" w]
  by (simp add: vlc_rwlock_wrlock_def vlc_mutex_lock_def del: mutex_set.simps)

lemma rd_effect_resume:
  "rd_effect l (rw_state (rwlocks h l)) (vlc_rwlock_rdlock_resume pk l w h)"
proof (cases "vlc_cond_wait_resume pk w h")
  case (Returns h1)
  with keeps_state_resume [of l h pk w] rd_effect_loop [of l h1 w] show ?thesis
    by (simp add: vlc_rwlock_rdlock_resume_def)
next
  case (Parked h1)
  with keeps_state_resume [of l h pk w] show ?thesis
    by (simp add: vlc_rwlock_rdlock_resume_def)
qed (simp_all add: vlc_rwlock_rdlock_resume_def)

lemma wr_effect_resume:
  "wr_effect l (rw_state (rwlocks h l)) (vlc_rwlock_wrlock_resume pk l w h)"
proof (cases "vlc_cond_wait_resume pk w h")
  case (Returns h1)
  with keeps_state_resume [of l h pk w] wr_effect_loop [of l h1 w] show ?thesis
    by (simp add: vlc_rwlock_wrlock_resume_def)
next
  case (Parked h1)
  with keeps_state_resume [of l h pk w] show ?thesis
    by (simp add: vlc_rwlock_wrlock_resume_def)
qed (simp_all add: vlc_rwlock_wrlock_resume_def)

lemma vlc_cond_signal_not_Parked: "vlc_cond_signal p h \<noteq> Parked h'"
  by (simp add: vlc_cond_signal_def vlc_mutex_lock_def Let_def del: mutex_set.simps)

lemma vlc_cond_broadcast_not_Parked: "vlc_cond_broadcast p h \<noteq> Parked h'"
  by (simp add: vlc_cond_broadcast_def vlc_mutex_lock_def Let_def split: option.splits
      del: mutex_set.simps)

lemma un_effect_unlock: "un_effect l (rw_state (rwlocks h l)) (vlc_rwlock_unlock l h)"
proof (cases "rw_mutex (rwlocks h l)")
  case True
  then show ?thesis by (simp add: vlc_rwlock_unlock_def vlc_mutex_lock_def)
next
  case False
  let ?s = "rw_state (rwlocks h l)"
  let ?h1 = "mutex_set (Rwlock_mutex l) True h"
  have s1: "rw_state (rwlocks ?h1 l) = ?s" by simp
  show ?thesis
  proof (cases "sint ?s < 0")
    case True
    let ?h2 = "state_upd l (\<lambda>_. 0) ?h1"
    show ?thesis
    proof (cases "vlc_cond_broadcast (Rwlock_wait l) ?h2")
      case (Returns h3)
      with keeps_state_broadcast [of l ?h2 "Rwlock_wait l"] have "rw_state (rwlocks h3 l) = 0"
        by (simp del: mutex_set.simps)
      with True False Returns show ?thesis
        by (simp add: vlc_rwlock_unlock_def vlc_mutex_lock_def vlc_mutex_unlock_def
            del: mutex_set.simps)
    next
      case (Parked h3)
      with vlc_cond_broadcast_not_Parked show ?thesis by blast
    qed (use True False in \<open>simp_all add: vlc_rwlock_unlock_def vlc_mutex_lock_def
            del: mutex_set.simps\<close>)
  next
    case nonneg: False
    let ?h2 = "state_upd l (\<lambda>s. s - 1) ?h1"
    show ?thesis
    proof (cases "0 < sint ?s")
      case False
      with nonneg \<open>\<not> rw_mutex (rwlocks h l)\<close> show ?thesis
        by (simp add: vlc_rwlock_unlock_def vlc_mutex_lock_def del: mutex_set.simps)
    next
      case True
      show ?thesis
      proof (cases "?s - 1 = 0")
        case last: True
        show ?thesis
        proof (cases "vlc_cond_signal (Rwlock_wait l) ?h2")
          case (Returns h3)
          with keeps_state_signal [of l ?h2 "Rwlock_wait l"]
          have "rw_state (rwlocks h3 l) = ?s - 1"
            by (simp del: mutex_set.simps)
          with True nonneg last Returns \<open>\<not> rw_mutex (rwlocks h l)\<close> show ?thesis
            by (simp add: vlc_rwlock_unlock_def vlc_mutex_lock_def vlc_mutex_unlock_def Let_def
                del: mutex_set.simps)
        next
          case (Parked h3)
          with vlc_cond_signal_not_Parked show ?thesis by blast
        qed (use True nonneg last \<open>\<not> rw_mutex (rwlocks h l)\<close> in
              \<open>simp_all add: vlc_rwlock_unlock_def vlc_mutex_lock_def Let_def
                del: mutex_set.simps\<close>)
      next
        case more: False
        with True nonneg \<open>\<not> rw_mutex (rwlocks h l)\<close> show ?thesis
          by (simp add: vlc_rwlock_unlock_def vlc_mutex_lock_def vlc_mutex_unlock_def Let_def
              del: mutex_set.simps)
      qed
    qed
  qed
qed

subsection \<open>The encoding is kept\<close>

lemma rw_encoding_state_cong:
  "rw_state (rwlocks h' l) = rw_state (rwlocks h l) \<Longrightarrow> rw_encoding l h' g = rw_encoding l h g"
  by (simp add: rw_encoding_def)

lemma rw_encoding_read:
  assumes "rw_encoding l h g" "0 \<le> sint (rw_state (rwlocks h l))"
    "rw_state (rwlocks h l) \<noteq> READER_MASK"
    "rw_state (rwlocks h' l) = rw_state (rwlocks h l) + 1"
  shows "rw_encoding l h' (g\<lparr>readers := readers g + 1\<rparr>)"
proof -
  let ?s = "rw_state (rwlocks h l)"
  have s': "sint (rw_state (rwlocks h' l)) = sint ?s + 1"
    using assms(2,3,4) by (simp add: sint_incr)
  then have nz: "rw_state (rwlocks h' l) \<noteq> 0"
    using assms(2) by auto
  have w: "writers g = 0"
    using assms(1,2) sint_zero_iff [of ?s] by (cases "sint ?s = 0") (auto simp: rw_encoding_def)
  have r: "sint ?s = int (readers g)"
    using assms(1,2) sint_zero_iff [of ?s] by (cases "sint ?s = 0") (auto simp: rw_encoding_def)
  show ?thesis
    using s' nz w r assms(2) by (simp add: rw_encoding_def)
qed

lemma rw_encoding_write:
  assumes "rw_encoding l h g" "rw_state (rwlocks h l) = 0"
    "rw_state (rwlocks h' l) = WRITER_BIT"
  shows "rw_encoding l h' (g\<lparr>writers := writers g + 1\<rparr>)"
proof -
  have "readers g = 0 \<and> writers g = 0"
    using assms(1,2) by (simp add: rw_encoding_def)
  moreover have "WRITER_BIT \<noteq> (0 :: long)"
    by (simp add: WRITER_BIT_def LONG_MIN_def)
  ultimately show ?thesis
    using assms(3) by (simp add: rw_encoding_def sint_WRITER_BIT)
qed

lemma rw_encoding_read_unlock:
  assumes "rw_encoding l h g" "0 < readers g"
    "un_effect l (rw_state (rwlocks h l)) (Returns h')"
  shows "rw_encoding l h' (g\<lparr>readers := readers g - 1\<rparr>)"
proof -
  let ?s = "rw_state (rwlocks h l)"
  have nw: "\<not> sint ?s < 0" and nz: "?s \<noteq> 0"
    using assms(1,2) by (auto simp: rw_encoding_def)
  then have pos: "0 < sint ?s"
    using sint_zero_iff [of ?s] by (cases "sint ?s = 0") auto
  then have w: "writers g = 0" and r: "sint ?s = int (readers g)"
    using assms(1) by (auto simp: rw_encoding_def)
  have "?s \<noteq> WRITER_BIT"
    using nw by (auto simp: sint_WRITER_BIT)
  with assms(3) have s': "rw_state (rwlocks h' l) = ?s - 1"
    by auto
  have sint': "sint (rw_state (rwlocks h' l)) = int (readers g) - 1"
    using s' pos r by (simp add: sint_decr)
  have zero: "rw_state (rwlocks h' l) = 0 \<longleftrightarrow> readers g = 1"
    using sint' sint_zero_iff [of "rw_state (rwlocks h' l)"] by auto
  show ?thesis
    using sint' zero w assms(2) by (auto simp: rw_encoding_def)
qed

lemma rw_encoding_write_unlock:
  assumes "rw_encoding l h g" "0 < writers g"
    "un_effect l (rw_state (rwlocks h l)) (Returns h')"
  shows "rw_encoding l h' (g\<lparr>writers := writers g - 1\<rparr>)"
proof -
  let ?s = "rw_state (rwlocks h l)"
  have "\<not> 0 < sint ?s" and "?s \<noteq> 0"
    using assms(1,2) by (auto simp: rw_encoding_def)
  then have neg: "sint ?s < 0"
    using sint_zero_iff [of ?s] by (cases "sint ?s = 0") auto
  then have g: "writers g = 1" "readers g = 0"
    using assms(1) by (auto simp: rw_encoding_def)
  from neg assms(3) have "rw_state (rwlocks h' l) = 0"
    by auto
  with g show ?thesis
    by (simp add: rw_encoding_def)
qed

lemma rw_encoding_rd_effect:
  assumes "rw_encoding l h g" "rd_effect l (rw_state (rwlocks h l)) x"
  shows "(x = Returns h' \<longrightarrow> rw_encoding l h' (g\<lparr>readers := readers g + 1\<rparr>)) \<and>
         (x = Parked h' \<longrightarrow> rw_encoding l h' g)"
proof (cases x)
  case (Returns h1)
  with assms rw_encoding_read [of l h g h1] show ?thesis by auto
next
  case (Parked h1)
  with assms rw_encoding_state_cong [of h1 l h g] show ?thesis by auto
qed simp_all

lemma rw_encoding_wr_effect:
  assumes "rw_encoding l h g" "wr_effect l (rw_state (rwlocks h l)) x"
  shows "(x = Returns h' \<longrightarrow> rw_encoding l h' (g\<lparr>writers := writers g + 1\<rparr>)) \<and>
         (x = Parked h' \<longrightarrow> rw_encoding l h' g)"
proof (cases x)
  case (Returns h1)
  with assms rw_encoding_write [of l h g h1] show ?thesis by auto
next
  case (Parked h1)
  with assms rw_encoding_state_cong [of h1 l h g] show ?thesis by auto
qed simp_all

lemma rw_encoding_step:
  assumes enc: "rw_encoding l h g" and ok: "permitted e g"
  shows "(exec (rw_call l e) h = Returns h' \<longrightarrow> rw_encoding l h' (completed e g)) \<and>
         (exec (rw_call l e) h = Parked h' \<longrightarrow> rw_encoding l h' g)"
proof (cases e)
  case (Read_lock w)
  with rw_encoding_rd_effect [OF enc rd_effect_rdlock, of w h'] show ?thesis by simp
next
  case (Read_resume p w)
  with rw_encoding_rd_effect [OF enc rd_effect_resume, of p w h'] show ?thesis by simp
next
  case (Write_lock w)
  with rw_encoding_wr_effect [OF enc wr_effect_wrlock, of w h'] show ?thesis by simp
next
  case (Write_resume p w)
  with rw_encoding_wr_effect [OF enc wr_effect_resume, of p w h'] show ?thesis by simp
next
  case Read_unlock
  have "rw_encoding l h' (g\<lparr>readers := readers g - 1\<rparr>)" if "vlc_rwlock_unlock l h = Returns h'"
    using un_effect_unlock [of l h] that ok Read_unlock
    by (intro rw_encoding_read_unlock [OF enc]) simp_all
  moreover have "vlc_rwlock_unlock l h \<noteq> Parked h'"
    using un_effect_unlock [of l h] by auto
  ultimately show ?thesis using Read_unlock by simp
next
  case Write_unlock
  have "rw_encoding l h' (g\<lparr>writers := writers g - 1\<rparr>)" if "vlc_rwlock_unlock l h = Returns h'"
    using un_effect_unlock [of l h] that ok Write_unlock
    by (intro rw_encoding_write_unlock [OF enc]) simp_all
  moreover have "vlc_rwlock_unlock l h \<noteq> Parked h'"
    using un_effect_unlock [of l h] by auto
  ultimately show ?thesis using Write_unlock by simp
qed

lemma rw_run_encoding:
  "rw_encoding l h g \<Longrightarrow> rw_run l es (h, g) = Some (h', g') \<Longrightarrow> rw_encoding l h' g'"
proof (induction es arbitrary: h g)
  case Nil
  then show ?case by simp
next
  case (Cons e es)
  from Cons.prems(2) have ok: "permitted e g"
    by (simp split: if_splits)
  note step = rw_encoding_step [OF Cons.prems(1) ok]
  show ?case
  proof (cases "exec (rw_call l e) h")
    case (Returns h1)
    with step have "rw_encoding l h1 (completed e g)" by simp
    moreover from Cons.prems(2) ok Returns have "rw_run l es (h1, completed e g) = Some (h', g')"
      by simp
    ultimately show ?thesis by (rule Cons.IH)
  next
    case (Parked h1)
    with step have "rw_encoding l h1 g" by simp
    moreover from Cons.prems(2) ok Parked have "rw_run l es (h1, g) = Some (h', g')"
      by simp
    ultimately show ?thesis by (rule Cons.IH)
  qed (use Cons.prems(2) ok in simp_all)
qed

lemma rw_state_init [simp]: "rw_state (rwlocks (vlc_rwlock_init l h) l) = 0"
  by (simp add: vlc_rwlock_init_def vlc_cond_init_def Let_def del: mutex_set.simps)

text \<open>
  C3. Initialise a read/write lock, with no holds, and let any history of requests,
  resumptions and releases run on it. If the history can take place (no call in it
  blocks, aborts or diverges, and every release is by a client that has a hold), then in
  the state reached the state word is negative exactly when there is one write hold and no
  read hold, and then it is \<open>WRITER_BIT\<close>; it is positive exactly when there are read holds
  and no write hold, and then it is their number; it is zero exactly when there is no hold.
  Moreover every single event that takes place keeps this encoding, from any memory in
  which it holds.
\<close>

theorem vlc_rwlock_state_encoding:
  "(rw_run l es (vlc_rwlock_init l h0, \<lparr>readers = 0, writers = 0\<rparr>) = Some (h', g') \<longrightarrow>
      rw_encoding l h' g') \<and>
   (rw_encoding l h g \<and> rw_run l [e] (h, g) = Some (h1, g1) \<longrightarrow> rw_encoding l h1 g1)"
proof -
  have "rw_encoding l (vlc_rwlock_init l h0) \<lparr>readers = 0, writers = 0\<rparr>"
    by (simp add: rw_encoding_def)
  then show ?thesis
    using rw_run_encoding by blast
qed

subsection \<open>Read locking when no writer holds the lock\<close>

lemma vlc_rwlock_rdlock_free:
  assumes "0 \<le> sint (rw_state (rwlocks h l))" "\<not> rw_mutex (rwlocks h l)"
  shows "vlc_rwlock_rdlock l w h =
           (if rw_state (rwlocks h l) = READER_MASK then Aborted
            else Returns (state_upd l (\<lambda>s. s + 1) h))"
proof -
  let ?m = "Rwlock_mutex l"
  have free: "\<not> mutex_at ?m h" using assms(2) by simp
  have "mutex_set ?m False (state_upd l (\<lambda>s. s + 1) (mutex_set ?m True h)) =
      state_upd l (\<lambda>s. s + 1) h"
    using unlock_lock_id [OF free] by (simp only: mutex_set_state_upd)
  then show ?thesis
    using assms
    by (simp add: vlc_rwlock_rdlock_def vlc_mutex_lock_def rdlock_loop_def vlc_mutex_unlock_def
        reader_overflow_iff del: mutex_set.simps)
qed

lemma rdlock_times:
  assumes "0 \<le> sint (rw_state (rwlocks h l))" "\<not> rw_mutex (rwlocks h l)"
    "sint (rw_state (rwlocks h l)) + int n \<le> sint READER_MASK"
  shows "run_calls (replicate n (Rdlock l w)) h = Returns (state_upd l (\<lambda>s. s + of_nat n) h) \<and>
         sint (rw_state (rwlocks h l) + of_nat n) = sint (rw_state (rwlocks h l)) + int n"
  using assms
proof (induction n arbitrary: h)
  case 0
  then show ?case by (simp add: state_upd_id)
next
  case (Suc n)
  let ?s = "rw_state (rwlocks h l)"
  let ?h1 = "state_upd l (\<lambda>s. s + 1) h"
  have "\<not> sint READER_MASK \<le> sint ?s"
    using Suc.prems(3) by simp
  then have nm: "?s \<noteq> READER_MASK"
    by (simp add: reader_overflow_iff)
  have first: "vlc_rwlock_rdlock l w h = Returns ?h1"
    using vlc_rwlock_rdlock_free [OF Suc.prems(1,2)] nm by simp
  have s1: "sint (rw_state (rwlocks ?h1 l)) = sint ?s + 1"
    using Suc.prems(1) nm by (simp add: sint_incr)
  have pre: "0 \<le> sint (rw_state (rwlocks ?h1 l))" "\<not> rw_mutex (rwlocks ?h1 l)"
    "sint (rw_state (rwlocks ?h1 l)) + int n \<le> sint READER_MASK"
    using s1 Suc.prems by simp_all
  from Suc.IH [OF pre]
  have run: "run_calls (replicate n (Rdlock l w)) ?h1 =
      Returns (state_upd l (\<lambda>s. s + of_nat n) ?h1)"
    and val: "sint (rw_state (rwlocks ?h1 l) + of_nat n) =
      sint (rw_state (rwlocks ?h1 l)) + int n"
    by simp_all
  have "(\<lambda>s. s + of_nat n) \<circ> (\<lambda>s. s + 1) = (\<lambda>s :: long. s + of_nat (Suc n))"
    by (simp add: fun_eq_iff)
  then have "state_upd l (\<lambda>s. s + of_nat n) ?h1 = state_upd l (\<lambda>s. s + of_nat (Suc n)) h"
    by (simp add: state_upd_state_upd)
  moreover have "sint (?s + of_nat (Suc n)) = sint ?s + int (Suc n)"
  proof -
    have "sint (?s + 1 + of_nat n) = sint ?s + 1 + int n"
      using val s1 by simp
    then show ?thesis by (simp add: add.assoc)
  qed
  ultimately show ?case
    using first run by simp
qed

text \<open>
  C8. When no writer holds the lock (the state word is not negative) and the internal
  mutex is free, \<open>vlc_rwlock_rdlock\<close> aborts if the state word is \<open>READER_MASK\<close>, and
  otherwise returns, without waiting, with the state word incremented by one (as a signed
  number too) and nothing else changed. So \<open>n\<close> requests in a row, from a thread that
  holds the lock or not, all return as long as the count stays within \<open>READER_MASK\<close>, and
  the state word is then \<open>n\<close> more than it was.
\<close>

theorem vlc_rwlock_rdlock_not_write_held:
  assumes "0 \<le> sint (rw_state (rwlocks h l))" "\<not> rw_mutex (rwlocks h l)"
  shows "vlc_rwlock_rdlock l waiter h =
           (if rw_state (rwlocks h l) = READER_MASK then Aborted
            else Returns (state_upd l (\<lambda>s. s + 1) h)) \<and>
         (rw_state (rwlocks h l) \<noteq> READER_MASK \<longrightarrow>
            sint (rw_state (rwlocks h l) + 1) = sint (rw_state (rwlocks h l)) + 1) \<and>
         (\<forall>n. sint (rw_state (rwlocks h l)) + int n \<le> sint READER_MASK \<longrightarrow>
            run_calls (replicate n (Rdlock l waiter)) h =
              Returns (state_upd l (\<lambda>s. s + of_nat n) h) \<and>
            sint (rw_state (rwlocks h l) + of_nat n) = sint (rw_state (rwlocks h l)) + int n)"
  using vlc_rwlock_rdlock_free [OF assms] rdlock_times [OF assms] sint_incr [OF assms(1)]
  by blast

subsection \<open>Unlocking\<close>

lemma vlc_rwlock_unlock_write:
  assumes free: "\<not> rw_mutex (rwlocks h l)" and q: "cond_queue (Rwlock_wait l) h q"
    and cfree: "\<not> c_lock (cond_at (Rwlock_wait l) h)"
    and wr: "rw_state (rwlocks h l) = WRITER_BIT"
  shows "\<exists>h'. vlc_rwlock_unlock l h = Returns h' \<and> rw_state (rwlocks h' l) = 0 \<and>
           \<not> rw_mutex (rwlocks h' l) \<and> cond_queue (Rwlock_wait l) h' [] \<and>
           notified h' = notified h @ q \<and>
           (\<forall>w\<in>set q. w_value (waiters h' w) = w_value (waiters h w) + 1)"
proof -
  let ?m = "Rwlock_mutex l"
  let ?h2 = "state_upd l (\<lambda>_. 0) (mutex_set ?m True h)"
  have q2: "cond_queue (Rwlock_wait l) ?h2 q"
    using q by (simp add: cond_queue_mutex_set del: mutex_set.simps cond_at.simps)
  have cfree2: "\<not> c_lock (cond_at (Rwlock_wait l) ?h2)"
    using cfree by (simp del: mutex_set.simps cond_at.simps)
  from vlc_cond_broadcast_queue [OF q2 cfree2]
  obtain h3 where ret: "vlc_cond_broadcast (Rwlock_wait l) ?h2 = Returns h3"
    and q3: "cond_queue (Rwlock_wait l) h3 []"
    and n3: "notified h3 = notified ?h2 @ q"
    and w3: "\<forall>w\<in>set q. waiters h3 w =
        (waiters ?h2 w)\<lparr>w_pprev := Next w, w_next := None, w_value := w_value (waiters ?h2 w) + 1\<rparr>"
    and s3: "\<forall>l'. rw_state (rwlocks h3 l') = rw_state (rwlocks ?h2 l')"
    by blast
  have neg: "sint (rw_state (rwlocks h l)) < 0"
    using wr by (simp add: sint_WRITER_BIT)
  have "vlc_rwlock_unlock l h = Returns (mutex_set ?m False h3)"
    using free wr neg ret
    by (simp add: vlc_rwlock_unlock_def vlc_mutex_lock_def vlc_mutex_unlock_def
        del: mutex_set.simps cond_at.simps)
  moreover have "rw_state (rwlocks (mutex_set ?m False h3) l) = 0"
    using s3 by (simp del: mutex_set.simps cond_at.simps)
  moreover have "cond_queue (Rwlock_wait l) (mutex_set ?m False h3) []"
    using q3 by (simp only: cond_queue_mutex_set)
  moreover have "w_value (waiters (mutex_set ?m False h3) w) = w_value (waiters h w) + 1"
    if "w \<in> set q" for w
    using w3 that by (simp del: mutex_set.simps cond_at.simps)
  ultimately show ?thesis
    using n3 by (auto simp del: mutex_set.simps cond_at.simps)
qed

lemma vlc_rwlock_unlock_read:
  assumes free: "\<not> rw_mutex (rwlocks h l)" and q: "cond_queue (Rwlock_wait l) h q"
    and cfree: "\<not> c_lock (cond_at (Rwlock_wait l) h)"
    and rd: "0 < sint (rw_state (rwlocks h l))"
  shows "\<exists>h'. vlc_rwlock_unlock l h = Returns h' \<and>
           rw_state (rwlocks h' l) = rw_state (rwlocks h l) - 1 \<and>
           sint (rw_state (rwlocks h' l)) = sint (rw_state (rwlocks h l)) - 1 \<and>
           \<not> rw_mutex (rwlocks h' l) \<and>
           (if rw_state (rwlocks h l) = 1
            then notified h' = notified h @ take 1 q \<and>
                 cond_queue (Rwlock_wait l) h' (drop 1 q) \<and>
                 (\<forall>w\<in>set (take 1 q). w_value (waiters h' w) = w_value (waiters h w) + 1) \<and>
                 (\<forall>v. v \<notin> set (take 1 q) \<longrightarrow> w_value (waiters h' v) = w_value (waiters h v))
            else notified h' = notified h \<and> cond_queue (Rwlock_wait l) h' q \<and>
                 waiters h' = waiters h)"
proof -
  let ?m = "Rwlock_mutex l"
  let ?s = "rw_state (rwlocks h l)"
  let ?h2 = "state_upd l (\<lambda>s. s - 1) (mutex_set ?m True h)"
  have s2: "rw_state (rwlocks ?h2 l) = ?s - 1"
    by (simp del: mutex_set.simps cond_at.simps)
  have last: "?s - 1 = 0 \<longleftrightarrow> ?s = 1"
    by auto
  have q2: "cond_queue (Rwlock_wait l) ?h2 q"
    using q by (simp add: cond_queue_mutex_set del: mutex_set.simps cond_at.simps)
  have cfree2: "\<not> c_lock (cond_at (Rwlock_wait l) ?h2)"
    using cfree by (simp del: mutex_set.simps cond_at.simps)
  have nneg: "\<not> sint ?s < 0" using rd by simp
  have unlock: "vlc_rwlock_unlock l h =
      and_then (if ?s = 1 then vlc_cond_signal (Rwlock_wait l) ?h2 else Returns ?h2)
        (\<lambda>h. Returns (mutex_set ?m False h))"
    using free rd nneg last
    by (simp add: vlc_rwlock_unlock_def vlc_mutex_lock_def vlc_mutex_unlock_def Let_def
        del: mutex_set.simps cond_at.simps)
  have sint': "sint (?s - 1) = sint ?s - 1"
    using rd by (rule sint_decr)
  show ?thesis
  proof (cases "?s = 1")
    case False
    then have "vlc_rwlock_unlock l h = Returns (mutex_set ?m False ?h2)"
      using unlock by simp
    then show ?thesis
      using False sint' q2
      by (auto simp: cond_queue_mutex_set simp del: mutex_set.simps cond_at.simps)
  next
    case one: True
    show ?thesis
    proof (cases q)
      case Nil
      with q2 have "c_head (cond_at (Rwlock_wait l) ?h2) = None" by simp
      from vlc_cond_signal_empty [OF this cfree2]
      have "vlc_rwlock_unlock l h = Returns (mutex_set ?m False ?h2)"
        using unlock one by simp
      then show ?thesis
        using one sint' q2 Nil
        by (auto simp: cond_queue_mutex_set simp del: mutex_set.simps cond_at.simps)
    next
      case (Cons w q')
      from vlc_cond_signal_queue [OF q2 [unfolded Cons] cfree2]
      obtain h3 where sig: "vlc_cond_signal (Rwlock_wait l) ?h2 = Returns h3"
        and q3: "cond_queue (Rwlock_wait l) h3 q'"
        and n3: "notified h3 = notified ?h2 @ [w]"
        and w3: "w_value (waiters h3 w) = w_value (waiters ?h2 w) + 1"
        and v3: "\<forall>v. v \<noteq> w \<longrightarrow> w_value (waiters h3 v) = w_value (waiters ?h2 v)"
        and s3: "\<forall>l'. rw_state (rwlocks h3 l') = rw_state (rwlocks ?h2 l')"
        by blast
      have "vlc_rwlock_unlock l h = Returns (mutex_set ?m False h3)"
        using unlock one sig by simp
      moreover have "rw_state (rwlocks (mutex_set ?m False h3) l) = ?s - 1"
        using s3 by (simp del: mutex_set.simps cond_at.simps)
      moreover have "cond_queue (Rwlock_wait l) (mutex_set ?m False h3) q'"
        using q3 by (simp only: cond_queue_mutex_set)
      ultimately show ?thesis
        using one sint' n3 w3 v3 Cons
        by (auto simp del: mutex_set.simps cond_at.simps)
    qed
  qed
qed

text \<open>
  C6. Take a read/write lock whose internal mutex and condition variable lock are free,
  with the waiters \<open>q\<close> queued on its condition variable. If it is held for writing,
  \<open>vlc_rwlock_unlock\<close> returns with the state word 0, and it has broadcast: the queue is
  empty and every waiter of \<open>q\<close> has been notified and has its cell incremented. If it is
  held for reading, \<open>vlc_rwlock_unlock\<close> returns with the state word decremented by one;
  when the state word was 1, and so is now 0, it has signalled once: the head of the
  queue, if there is one, has been notified and unlinked, and no other waiter; when the
  state word was more than 1, nobody has been notified and the queue and the waiters are
  as before.
\<close>

theorem vlc_rwlock_unlock_wakes:
  assumes "\<not> rw_mutex (rwlocks h l)" "cond_queue (Rwlock_wait l) h q"
    "\<not> c_lock (cond_at (Rwlock_wait l) h)"
  shows "(rw_state (rwlocks h l) = WRITER_BIT \<longrightarrow>
            (\<exists>h'. vlc_rwlock_unlock l h = Returns h' \<and> rw_state (rwlocks h' l) = 0 \<and>
                  \<not> rw_mutex (rwlocks h' l) \<and> cond_queue (Rwlock_wait l) h' [] \<and>
                  notified h' = notified h @ q \<and>
                  (\<forall>w\<in>set q. w_value (waiters h' w) = w_value (waiters h w) + 1))) \<and>
         (0 < sint (rw_state (rwlocks h l)) \<longrightarrow>
            (\<exists>h'. vlc_rwlock_unlock l h = Returns h' \<and>
                  rw_state (rwlocks h' l) = rw_state (rwlocks h l) - 1 \<and>
                  sint (rw_state (rwlocks h' l)) = sint (rw_state (rwlocks h l)) - 1 \<and>
                  \<not> rw_mutex (rwlocks h' l) \<and>
                  (if rw_state (rwlocks h l) = 1
                   then notified h' = notified h @ take 1 q \<and>
                        cond_queue (Rwlock_wait l) h' (drop 1 q) \<and>
                        (\<forall>w\<in>set (take 1 q).
                           w_value (waiters h' w) = w_value (waiters h w) + 1) \<and>
                        (\<forall>v. v \<notin> set (take 1 q) \<longrightarrow>
                           w_value (waiters h' v) = w_value (waiters h v))
                   else notified h' = notified h \<and> cond_queue (Rwlock_wait l) h' q \<and>
                        waiters h' = waiters h)))"
  using vlc_rwlock_unlock_write [OF assms] vlc_rwlock_unlock_read [OF assms]
  by blast

subsection \<open>Sample histories\<close>

theorem vlc_rwlock_state_encoding_witness:
  "\<exists>h' g'. rw_run 0 [Read_lock 1, Read_lock 1, Read_unlock]
              (vlc_rwlock_init 0 heap_init, \<lparr>readers = 0, writers = 0\<rparr>) = Some (h', g') \<and>
           rw_state (rwlocks h' 0) = 1 \<and> readers g' = 1 \<and> writers g' = 0 \<and>
           rw_encoding 0 h' g'"
proof -
  have "\<exists>h' g'. rw_run 0 [Read_lock 1, Read_lock 1, Read_unlock]
                  (vlc_rwlock_init 0 heap_init, \<lparr>readers = 0, writers = 0\<rparr>) = Some (h', g') \<and>
                rw_state (rwlocks h' 0) = 1 \<and> readers g' = 1 \<and> writers g' = 0"
    by (simp add: vlc_rwlock_init_def heap_init_def vlc_cond_init_def state_upd_def
        vlc_rwlock_rdlock_def rdlock_loop_def vlc_mutex_lock_def vlc_mutex_unlock_def
        vlc_rwlock_unlock_def READER_MASK_def LONG_MAX_def WRITER_BIT_def LONG_MIN_def Let_def)
  then obtain h' g'
    where run: "rw_run 0 [Read_lock 1, Read_lock 1, Read_unlock]
                  (vlc_rwlock_init 0 heap_init, \<lparr>readers = 0, writers = 0\<rparr>) = Some (h', g')"
      and obs: "rw_state (rwlocks h' 0) = 1" "readers g' = 1" "writers g' = 0"
    by blast
  from vlc_rwlock_state_encoding [of 0 "[Read_lock 1, Read_lock 1, Read_unlock]" heap_init h' g']
    run
  have "rw_encoding 0 h' g'"
    by blast
  with run obs show ?thesis
    by blast
qed

theorem vlc_rwlock_rdlock_not_write_held_witness:
  "vlc_rwlock_rdlock 0 1 (vlc_rwlock_init 0 heap_init) =
     Returns (state_upd 0 (\<lambda>s. s + 1) (vlc_rwlock_init 0 heap_init)) \<and>
   run_calls (replicate 3 (Rdlock 0 1)) (vlc_rwlock_init 0 heap_init) =
     Returns (state_upd 0 (\<lambda>s. s + 3) (vlc_rwlock_init 0 heap_init)) \<and>
   rw_state (rwlocks (state_upd 0 (\<lambda>s. s + 3) (vlc_rwlock_init 0 heap_init)) 0) = 3 \<and>
   vlc_rwlock_rdlock 0 1 (state_upd 0 (\<lambda>_. READER_MASK) heap_init) = Aborted"
proof -
  let ?h = "vlc_rwlock_init 0 heap_init"
  let ?full = "state_upd 0 (\<lambda>_. READER_MASK) heap_init"
  have idle: "0 \<le> sint (rw_state (rwlocks ?h 0))" "\<not> rw_mutex (rwlocks ?h 0)"
    by (simp_all add: vlc_rwlock_init_def vlc_cond_init_def Let_def)
  have full: "0 \<le> sint (rw_state (rwlocks ?full 0))" "\<not> rw_mutex (rwlocks ?full 0)"
    by (simp_all add: sint_READER_MASK heap_init_def)
  have three: "sint (rw_state (rwlocks ?h 0)) + int 3 \<le> sint READER_MASK"
    by (simp add: sint_READER_MASK)
  have nm: "rw_state (rwlocks ?h 0) \<noteq> READER_MASK"
    by (simp add: READER_MASK_def LONG_MAX_def)
  from vlc_rwlock_rdlock_not_write_held [OF idle, of 1] three nm
    vlc_rwlock_rdlock_not_write_held [OF full, of 1]
  show ?thesis
    by simp
qed

lemma write_held_with_waiters:
  "\<exists>h. run_calls [Wrlock 0 1, Rdlock 0 2, Wrlock 0 3] (vlc_rwlock_init 0 heap_init) = Returns h \<and>
       rw_state (rwlocks h 0) = WRITER_BIT \<and> \<not> rw_mutex (rwlocks h 0) \<and>
       cond_queue (Rwlock_wait 0) h [3, 2] \<and> \<not> c_lock (cond_at (Rwlock_wait 0) h) \<and>
       notified h = [] \<and> w_value (waiters h 2) = 0 \<and> w_value (waiters h 3) = 0"
  by (simp add: vlc_rwlock_init_def heap_init_def vlc_cond_init_def state_upd_def
      vlc_rwlock_wrlock_def wrlock_loop_def vlc_rwlock_rdlock_def rdlock_loop_def
      vlc_cond_wait_def vlc_cond_wait_prepare_def waiter_upd_def
      vlc_mutex_lock_def vlc_mutex_unlock_def cond_queue_def
      READER_MASK_def LONG_MAX_def WRITER_BIT_def LONG_MIN_def Let_def)

lemma read_held_once:
  "\<exists>h. run_calls [Rdlock 0 1] (vlc_rwlock_init 0 heap_init) = Returns h \<and>
       rw_state (rwlocks h 0) = 1 \<and> \<not> rw_mutex (rwlocks h 0) \<and>
       cond_queue (Rwlock_wait 0) h [] \<and> \<not> c_lock (cond_at (Rwlock_wait 0) h) \<and>
       notified h = []"
  by (simp add: vlc_rwlock_init_def heap_init_def vlc_cond_init_def state_upd_def
      vlc_rwlock_rdlock_def rdlock_loop_def
      vlc_mutex_lock_def vlc_mutex_unlock_def cond_queue_def
      READER_MASK_def LONG_MAX_def WRITER_BIT_def LONG_MIN_def Let_def)

theorem vlc_rwlock_unlock_wakes_witness:
  "(\<exists>h h'. run_calls [Wrlock 0 1, Rdlock 0 2, Wrlock 0 3] (vlc_rwlock_init 0 heap_init) =
             Returns h \<and>
           rw_state (rwlocks h 0) = WRITER_BIT \<and> cond_queue (Rwlock_wait 0) h [3, 2] \<and>
           vlc_rwlock_unlock 0 h = Returns h' \<and> rw_state (rwlocks h' 0) = 0 \<and>
           cond_queue (Rwlock_wait 0) h' [] \<and> notified h' = [3, 2] \<and>
           w_value (waiters h' 2) = 1 \<and> w_value (waiters h' 3) = 1) \<and>
   (\<exists>h h'. run_calls [Rdlock 0 1] (vlc_rwlock_init 0 heap_init) = Returns h \<and>
           rw_state (rwlocks h 0) = 1 \<and>
           vlc_rwlock_unlock 0 h = Returns h' \<and> rw_state (rwlocks h' 0) = 0 \<and>
           notified h' = [])"
proof -
  from write_held_with_waiters obtain h
    where run: "run_calls [Wrlock 0 1, Rdlock 0 2, Wrlock 0 3] (vlc_rwlock_init 0 heap_init) =
                  Returns h"
      and held: "rw_state (rwlocks h 0) = WRITER_BIT"
      and idle: "\<not> rw_mutex (rwlocks h 0)" "cond_queue (Rwlock_wait 0) h [3, 2]"
        "\<not> c_lock (cond_at (Rwlock_wait 0) h)"
      and quiet: "notified h = []" "w_value (waiters h 2) = 0" "w_value (waiters h 3) = 0"
    by blast
  from vlc_rwlock_unlock_wakes [OF idle] held
  obtain h' where "vlc_rwlock_unlock 0 h = Returns h'" "rw_state (rwlocks h' 0) = 0"
    "cond_queue (Rwlock_wait 0) h' []" "notified h' = notified h @ [3, 2]"
    "\<forall>w\<in>set [3, 2]. w_value (waiters h' w) = w_value (waiters h w) + 1"
    by blast
  with run held idle(2) quiet have writer: "\<exists>h h'.
      run_calls [Wrlock 0 1, Rdlock 0 2, Wrlock 0 3] (vlc_rwlock_init 0 heap_init) = Returns h \<and>
      rw_state (rwlocks h 0) = WRITER_BIT \<and> cond_queue (Rwlock_wait 0) h [3, 2] \<and>
      vlc_rwlock_unlock 0 h = Returns h' \<and> rw_state (rwlocks h' 0) = 0 \<and>
      cond_queue (Rwlock_wait 0) h' [] \<and> notified h' = [3, 2] \<and>
      w_value (waiters h' 2) = 1 \<and> w_value (waiters h' 3) = 1"
    by auto
  from read_held_once obtain k
    where run1: "run_calls [Rdlock 0 1] (vlc_rwlock_init 0 heap_init) = Returns k"
      and held1: "rw_state (rwlocks k 0) = 1"
      and idle1: "\<not> rw_mutex (rwlocks k 0)" "cond_queue (Rwlock_wait 0) k []"
        "\<not> c_lock (cond_at (Rwlock_wait 0) k)"
      and quiet1: "notified k = []"
    by blast
  have "0 < sint (rw_state (rwlocks k 0))"
    using held1 by simp
  with vlc_rwlock_unlock_wakes [OF idle1] held1
  obtain k' where "vlc_rwlock_unlock 0 k = Returns k'"
    "rw_state (rwlocks k' 0) = rw_state (rwlocks k 0) - 1" "notified k' = notified k @ take 1 []"
    by auto
  with run1 held1 quiet1 have reader: "\<exists>h h'.
      run_calls [Rdlock 0 1] (vlc_rwlock_init 0 heap_init) = Returns h \<and>
      rw_state (rwlocks h 0) = 1 \<and>
      vlc_rwlock_unlock 0 h = Returns h' \<and> rw_state (rwlocks h' 0) = 0 \<and> notified h' = []"
    by auto
  from writer reader show ?thesis
    by blast
qed

end
